theory Spec2Isabelle
  imports Main "HOL-Library.Sublist"
begin

section \<open>Strings\<close>

text \<open>
  A JavaScript string is a sequence of code units and \<open>.length\<close> counts them. The
  model uses \<open>string\<close> (a list of 8-bit characters), read as the code units
  U+0000 to U+00FF. On that range \<open>String.prototype.trim\<close> strips TAB, LF, VT, FF,
  CR, SPACE and NBSP, and \<open>toLowerCase\<close> maps A-Z and the Latin-1 capitals
  U+00C0 to U+00DE (without the multiplication sign U+00D7) 32 places up.
\<close>

definition is_ws :: "char \<Rightarrow> bool" where
  "is_ws c = ((of_char c :: nat) \<in> set [9, 10, 11, 12, 13, 32, 160])"

definition trim :: "string \<Rightarrow> string" where
  "trim s = rev (dropWhile is_ws (rev (dropWhile is_ws s)))"

definition toLowerChar :: "char \<Rightarrow> char" where
  "toLowerChar c =
     (let n = (of_char c :: nat)
      in if (65 \<le> n \<and> n \<le> 90) \<or> (192 \<le> n \<and> n \<le> 222 \<and> n \<noteq> 215)
         then char_of (n + 32) else c)"

definition toLowerCase :: "string \<Rightarrow> string" where
  "toLowerCase s = map toLowerChar s"

text \<open>\<open>s.includes(t)\<close> (the name \<open>includes\<close> is reserved): \<open>t\<close> occurs in \<open>s\<close> as a contiguous substring.\<close>

fun str_includes :: "string \<Rightarrow> string \<Rightarrow> bool" where
  "str_includes [] t = (t = [])"
| "str_includes (c # s) t = (prefix t (c # s) \<or> str_includes s t)"

text \<open>
  \<open>s.slice(0, n)\<close> for an integer \<open>n\<close>: a negative end counts from the end of the
  string, an end beyond the string is clamped.
\<close>

definition slice0 :: "string \<Rightarrow> int \<Rightarrow> string" where
  "slice0 s n = (if n < 0 then take (nat (int (length s) + n)) s else take (nat n) s)"

text \<open>\<open>xs.join(sep)\<close> on an array of strings.\<close>

fun join :: "string \<Rightarrow> string list \<Rightarrow> string" where
  "join sep [] = []"
| "join sep [x] = x"
| "join sep (x # y # ys) = x @ sep @ join sep (y # ys)"

text \<open>
  \<open>Set.prototype.add\<close> on a \<open>Set<string>\<close>, whose iteration order is insertion order:
  the set is the list of its members in that order.
\<close>

definition set_add :: "string \<Rightarrow> string list \<Rightarrow> string list" where
  "set_add s found = (if s \<in> set found then found else found @ [s])"

section \<open>Synonym lookup for a document (geminiService.ts)\<close>

text \<open>
  \<open>interface SynonymConfig { term: string; synonyms: string[] }\<close>, as parsed from
  synonyms.json. The code guards every use of \<open>synonyms\<close> with \<open>Array.isArray\<close>;
  \<open>None\<close> is a value that is not an array.
\<close>

record SynonymConfig =
  cfg_term :: string
  cfg_synonyms :: "string list option"

definition synonymInText :: "string \<Rightarrow> SynonymConfig \<Rightarrow> bool" where
  "synonymInText lower entry =
     (case cfg_synonyms entry of
        None \<Rightarrow> False
      | Some ss \<Rightarrow> list_ex (\<lambda>s. str_includes lower (toLowerCase s)) ss)"

definition add_cluster :: "SynonymConfig \<Rightarrow> string list \<Rightarrow> string list" where
  "add_cluster entry found =
     (let found1 = set_add (toLowerCase (cfg_term entry)) found
      in case cfg_synonyms entry of
           None \<Rightarrow> found1
         | Some ss \<Rightarrow> fold (\<lambda>s f. set_add (toLowerCase s) f) ss found1)"

fun getSynonymsLoop :: "string \<Rightarrow> SynonymConfig list \<Rightarrow> string list \<Rightarrow> string list" where
  "getSynonymsLoop lower [] found = found"
| "getSynonymsLoop lower (entry # rest) found =
     (let termLower = toLowerCase (cfg_term entry);
          termInText = str_includes lower termLower
      in if termInText \<or> synonymInText lower entry
         then getSynonymsLoop lower rest (add_cluster entry found)
         else getSynonymsLoop lower rest found)"

text \<open>
  \<open>synonymConfigs\<close> is the module constant loaded once at startup; it is the first
  argument here.
\<close>

definition getSynonymsForContent :: "SynonymConfig list \<Rightarrow> string \<Rightarrow> string list" where
  "getSynonymsForContent synonymConfigs content =
     getSynonymsLoop (toLowerCase content) synonymConfigs []"

text \<open>The cluster of an entry and the test that attaches it, for stating the result.\<close>

definition cluster :: "SynonymConfig \<Rightarrow> string list" where
  "cluster entry =
     toLowerCase (cfg_term entry) #
     (case cfg_synonyms entry of None \<Rightarrow> [] | Some ss \<Rightarrow> map toLowerCase ss)"

definition mentions :: "string \<Rightarrow> SynonymConfig \<Rightarrow> bool" where
  "mentions content entry =
     list_ex (\<lambda>t. str_includes (toLowerCase content) t) (cluster entry)"

section \<open>Metadata chunker (geminiService.ts)\<close>

fun chunkLoop :: "int \<Rightarrow> string list \<Rightarrow> string list \<Rightarrow> string \<Rightarrow> string list" where
  "chunkLoop maxLen [] chunks current =
     (if current \<noteq> [] then chunks @ [current] else chunks)"
| "chunkLoop maxLen (syn # rest) chunks current =
     (let trimmed = trim syn
      in if trimmed = [] then chunkLoop maxLen rest chunks current
         else
           let addition = (if current \<noteq> [] then '', '' else []) @ trimmed
           in if int (length current) + int (length addition) > maxLen
              then
                (let chunks1 = (if current \<noteq> [] then chunks @ [current] else chunks)
                 in if int (length trimmed) > maxLen
                    then chunkLoop maxLen rest (chunks1 @ [slice0 trimmed maxLen]) []
                    else chunkLoop maxLen rest chunks1 trimmed)
              else chunkLoop maxLen rest chunks (current @ addition))"

definition chunkSynonyms :: "string list \<Rightarrow> int \<Rightarrow> string list" where
  "chunkSynonyms synonyms maxLen = chunkLoop maxLen synonyms [] []"

section \<open>Response chunker (slackController.ts)\<close>

text \<open>
  \<open>slice.lastIndexOf(".")\<close>: the index of the last occurrence of the character, or
  \<open>-1\<close> when there is none.
\<close>

definition lastIndexOf :: "string \<Rightarrow> char \<Rightarrow> int" where
  "lastIndexOf s c =
     (if c \<in> set s
      then int (length s) - 1 - int (length (takeWhile (\<lambda>x. x \<noteq> c) (rev s)))
      else - 1)"

text \<open>
  The \<open>while\<close> loop of \<open>splitIntoSlackChunks\<close>. It need not end (with
  \<open>maxSize \<le> 0\<close> no progress is made), so the result is an option and \<open>None\<close>
  stands for a loop that never returns.
\<close>

partial_function (option) splitLoop :: "int \<Rightarrow> string \<Rightarrow> string list \<Rightarrow> string list option" where
  "splitLoop maxSize remaining parts =
     (if int (length remaining) > maxSize
      then
        (let slice = slice0 remaining maxSize;
             lastPeriod = lastIndexOf slice CHR ''.'';
             slice1 = (if lastPeriod \<noteq> - 1 \<and> lastPeriod > 2000
                       then slice0 slice (lastPeriod + 1) else slice)
         in splitLoop maxSize (trim (drop (length slice1) remaining)) (parts @ [slice1]))
      else Some (if length remaining > 0 then parts @ [remaining] else parts))"

declare splitLoop.simps [code]

definition splitIntoSlackChunks :: "string \<Rightarrow> int \<Rightarrow> string list option" where
  "splitIntoSlackChunks text maxSize = splitLoop maxSize text []"

section \<open>Synonym extraction (optimizeExtractSynonyms.ts)\<close>

text \<open>
  A document unit \<open>{ name, text }\<close>: one exported page, or one chunk of an oversized
  page.
\<close>

record DocUnit =
  doc_name :: string
  doc_text :: string

text \<open>
  An element of the array that \<open>JSON.parse\<close> returns for a batch, declared as
  \<open>SynonymEntry\<close>. The merge step guards against a null element, a missing term and a
  \<open>synonyms\<close> value that is not an array; \<open>None\<close> is the missing or non-array value.
\<close>

datatype SynonymEntry = Null | Entry "string option" "string list option"

definition MAX_CHARS_PER_BATCH :: nat where
  "MAX_CHARS_PER_BATCH = 20000"

text \<open>The decimal digits of a number, as the template literal prints the chunk index.\<close>

fun dec :: "nat \<Rightarrow> string" where
  "dec n = (if n < 10 then [char_of (48 + n)] else dec (n div 10) @ [char_of (48 + n mod 10)])"

declare dec.simps [simp del]

text \<open>The \<open>while\<close> loop of \<open>splitDocIntoChunks\<close>, on its variables \<open>start\<close> and \<open>index\<close>.\<close>

function splitFrom :: "DocUnit \<Rightarrow> nat \<Rightarrow> nat \<Rightarrow> DocUnit list" where
  "splitFrom doc start index =
     (if start < length (doc_text doc)
      then \<lparr>doc_name = doc_name doc @ ''#'' @ dec index,
            doc_text = take MAX_CHARS_PER_BATCH (drop start (doc_text doc))\<rparr>
           # splitFrom doc (start + MAX_CHARS_PER_BATCH) (index + 1)
      else [])"
  by pat_completeness auto
termination
  by (relation "measure (\<lambda>(doc, start, index). length (doc_text doc) - start)")
     (auto simp: MAX_CHARS_PER_BATCH_def)

declare splitFrom.simps [simp del]

definition splitDocIntoChunks :: "DocUnit \<Rightarrow> DocUnit list" where
  "splitDocIntoChunks doc = splitFrom doc 0 1"

text \<open>
  \<open>extractBatch\<close>. The generation call, raced against the timeout, followed by the two
  \<open>JSON.parse\<close> attempts, is the oracle \<open>extract\<close>: given the number of calls made so
  far and the batch it answers with the parsed array, or \<open>None\<close> when the call, the
  timeout or the parse fails. The list \<open>calls\<close> records every call: its batch and its
  attempt number, as the first log line of \<open>extractBatch\<close> does.
\<close>

function extractBatch ::
  "(nat \<Rightarrow> DocUnit list \<Rightarrow> SynonymEntry list option) \<Rightarrow> (DocUnit list \<times> nat) list \<Rightarrow>
   DocUnit list \<Rightarrow> nat \<Rightarrow> SynonymEntry list \<times> (DocUnit list \<times> nat) list" where
  "extractBatch extract calls batch attempt =
     (case extract (length calls) batch of
        Some parsed \<Rightarrow> (parsed, calls @ [(batch, attempt)])
      | None \<Rightarrow>
          if attempt < 2
          then extractBatch extract (calls @ [(batch, attempt)]) batch (attempt + 1)
          else ([], calls @ [(batch, attempt)]))"
  by pat_completeness auto
termination
  by (relation "measure (\<lambda>(extract, calls, batch, attempt). 2 - attempt)") auto

declare extractBatch.simps [simp del]

text \<open>The variables of the batching loop of \<open>generateSynonyms\<close>.\<close>

record BatchState =
  bs_results :: "SynonymEntry list"
  bs_batch :: "DocUnit list"
  bs_size :: nat
  bs_calls :: "(DocUnit list \<times> nat) list"

definition flushBatch ::
  "(nat \<Rightarrow> DocUnit list \<Rightarrow> SynonymEntry list option) \<Rightarrow> BatchState \<Rightarrow> BatchState" where
  "flushBatch extract st =
     (let (batchResult, calls) = extractBatch extract (bs_calls st) (bs_batch st) 1
      in st\<lparr>bs_results := bs_results st @ batchResult, bs_calls := calls\<rparr>)"

text \<open>The body of the inner loop, for one unit \<open>sub\<close>.\<close>

definition insertSub ::
  "(nat \<Rightarrow> DocUnit list \<Rightarrow> SynonymEntry list option) \<Rightarrow> DocUnit \<Rightarrow> BatchState \<Rightarrow> BatchState" where
  "insertSub extract sub st =
     (let st1 = (if bs_size st + length (doc_text sub) > MAX_CHARS_PER_BATCH
                 then (flushBatch extract st)\<lparr>bs_batch := [], bs_size := 0\<rparr>
                 else st)
      in st1\<lparr>bs_batch := bs_batch st1 @ [sub], bs_size := bs_size st1 + length (doc_text sub)\<rparr>)"

text \<open>The body of the outer loop, for one document.\<close>

definition docsToInsert :: "DocUnit \<Rightarrow> DocUnit list" where
  "docsToInsert doc =
     (if length (doc_text doc) > MAX_CHARS_PER_BATCH then splitDocIntoChunks doc else [doc])"

definition insertDoc ::
  "(nat \<Rightarrow> DocUnit list \<Rightarrow> SynonymEntry list option) \<Rightarrow> DocUnit \<Rightarrow> BatchState \<Rightarrow> BatchState" where
  "insertDoc extract doc st = fold (insertSub extract) (docsToInsert doc) st"

text \<open>Both loops and the final batch: the extraction results and the calls made.\<close>

definition runBatches ::
  "(nat \<Rightarrow> DocUnit list \<Rightarrow> SynonymEntry list option) \<Rightarrow> DocUnit list \<Rightarrow> BatchState" where
  "runBatches extract wikiDocs =
     (let st = fold (insertDoc extract) wikiDocs
                 \<lparr>bs_results = [], bs_batch = [], bs_size = 0, bs_calls = []\<rparr>
      in if length (bs_batch st) > 0 then flushBatch extract st else st)"

text \<open>
  The merge step. \<open>Map<string, Set<string>>\<close> iterates in insertion order and is the list
  of its keys with their sets, each set the list of its members.
\<close>

type_synonym SynMap = "(string \<times> string list) list"

definition map_has :: "SynMap \<Rightarrow> string \<Rightarrow> bool" where
  "map_has m k = (k \<in> set (map fst m))"

text \<open>\<open>map.get(k)!.add(s)\<close>\<close>

fun map_get_add :: "string \<Rightarrow> string \<Rightarrow> SynMap \<Rightarrow> SynMap" where
  "map_get_add k s [] = []"
| "map_get_add k s ((k', v) # m) =
     (if k' = k then (k', set_add s v) # m else (k', v) # map_get_add k s m)"

fun mergeEntry :: "SynonymEntry \<Rightarrow> SynMap \<Rightarrow> SynMap" where
  "mergeEntry Null m = m"
| "mergeEntry (Entry None syns) m = m"
| "mergeEntry (Entry (Some t) syns) m =
     (if t = [] then m
      else
        let term = toLowerCase (trim t)
        in if term = [] then m
           else
             let m1 = (if \<not> map_has m term then m @ [(term, [])] else m)
             in case syns of
                  None \<Rightarrow> m1
                | Some ss \<Rightarrow>
                    fold (map_get_add term)
                      (filter (\<lambda>s. length s > 0 \<and> s \<noteq> term)
                         (map (\<lambda>s. toLowerCase (trim s)) ss))
                      m1)"

definition mergeStep :: "SynonymEntry list \<Rightarrow> (string \<times> string list) list" where
  "mergeStep results =
     filter (\<lambda>(term, syns). length syns > 0) (fold mergeEntry results [])"

text \<open>The accumulated unit text of a batch, and the batches of the first attempts.\<close>

definition batch_chars :: "DocUnit list \<Rightarrow> nat" where
  "batch_chars b = sum_list (map (\<lambda>u. length (doc_text u)) b)"

definition flushed :: "(DocUnit list \<times> nat) list \<Rightarrow> DocUnit list list" where
  "flushed calls = map fst (filter (\<lambda>c. snd c = 1) calls)"

text \<open>An entry of the final output, read again as an element of a raw result array.\<close>

definition as_raw :: "string \<times> string list \<Rightarrow> SynonymEntry" where
  "as_raw e = Entry (Some (fst e)) (Some (snd e))"

section \<open>Files, the remote service and the process state\<close>

text \<open>
  Errors are values: \<open>Error msg\<close> is a thrown \<open>Error\<close> with that message, whether the
  code throws it or an external call rejects with it.
\<close>

datatype error = Error string

text \<open>
  An exported page \<open>{ title, source, content, images }\<close> as wikiService.ts writes it;
  \<open>images\<close> is not read by the code modelled here.
\<close>

record WikiJson =
  wj_title :: string
  wj_source :: string
  wj_content :: string

text \<open>A document of a remote file search store, and a store.\<close>

record RagDoc =
  rd_displayName :: string
  rd_content :: string
  rd_metadata :: "(string \<times> string) list"

record RagStore =
  rs_name :: string
  rs_displayName :: string
  rs_docs :: "RagDoc list"

text \<open>
  The state that the sync touches.
  \<^item> \<open>syncRunning\<close> and \<open>ai_ready\<close> are the module variables \<open>syncRunning\<close> and \<open>ai\<close>
    (\<open>ai_ready\<close>: the client has been created).
  \<^item> \<open>wiki_files\<close> is config/wiki-files: \<open>None\<close> when the directory is missing, else its
    entries in \<open>readdirSync\<close> order, each with the value \<open>JSON.parse\<close> gives for the
    file (\<open>None\<close> when it does not parse).
  \<^item> \<open>wiki_images\<close> is the listing of config/wiki-images and \<open>image_bytes\<close> the
    content of a file in it.
  \<^item> \<open>image_hash_cache\<close> is image-hash-cache.json (\<open>None\<close>: no such file), an object
    from image names to digests, kept as the list of its properties; the file, when
    there, holds such an object.
  \<^item> \<open>synonyms_json\<close> is synonyms.json (\<open>None\<close>: no such file).
  \<^item> \<open>rag_stores\<close> are the file search stores held by the remote service.
\<close>

record World =
  syncRunning :: bool
  ai_ready :: bool
  wiki_files :: "(string \<times> WikiJson option) list option"
  wiki_images :: "string list option"
  image_bytes :: "string \<Rightarrow> string"
  image_hash_cache :: "(string \<times> string) list option"
  synonyms_json :: "(string \<times> string list) list option"
  rag_stores :: "RagStore list"

text \<open>
  What one run gets from outside: configuration, the answers of the external services
  and the helpers that are not modelled further.
  \<^item> \<open>env_DATASET_NAME\<close> is \<open>process.env.DATASET_NAME || "IT_Wiki"\<close>.
  \<^item> \<open>env_synonymConfigs\<close> and \<open>env_synonymEntries\<close> are synonyms.json as the modules
    geminiService and rewriteQueryForFileSearch loaded it at startup.
  \<^item> \<open>env_cleanWikiText\<close> is \<open>cleanWikiText\<close>, a chain of regular expression
    replacements; \<open>env_imageRefs\<close> gives the base names of the image links that the
    regular expression of \<open>buildImagePageMap\<close> finds in a page, in order.
  \<^item> \<open>env_md5\<close> is the MD5 digest in hexadecimal.
  \<^item> \<open>env_extract\<close> is the extraction call of \<open>extractBatch\<close> (see above).
  \<^item> \<open>env_list_error\<close>, \<open>env_delete_error\<close>, \<open>env_create\<close> and \<open>env_upload_error\<close>
    say whether the calls on the remote stores reject, and which name a new store gets.
  \<^item> \<open>env_analyze\<close> is the text \<open>analyzeImageWithGemini\<close> returns for an image (it
    catches every error of its call) and \<open>env_uuid\<close> the identifier drawn for it.
  \<^item> \<open>env_rewrite\<close> is the generation call of the query rewriter on a prompt, with
    \<open>res.response.text()\<close>; \<open>env_qa\<close> is the grounded generation call of \<open>searchWiki\<close>
    (attempt number, question, system instruction, store name), giving the \<open>text\<close> of
    each part of the first candidate (\<open>None\<close>: a part without text).
  \<^item> \<open>env_default_prompt\<close> is the default system instruction of \<open>searchWiki\<close>.

  Within one run a call on the same arguments gets the same answer; from run to run the
  answers may differ, as each run has its own \<open>Env\<close>.
\<close>

record Env =
  env_DATASET_NAME :: string
  env_synonymConfigs :: "SynonymConfig list"
  env_synonymEntries :: "SynonymConfig list"
  env_cleanWikiText :: "string \<Rightarrow> string"
  env_imageRefs :: "string \<Rightarrow> string list"
  env_md5 :: "string \<Rightarrow> string"
  env_extract :: "nat \<Rightarrow> DocUnit list \<Rightarrow> SynonymEntry list option"
  env_list_error :: "error option"
  env_delete_error :: "string \<Rightarrow> error option"
  env_create :: "error + string"
  env_upload_error :: "string \<Rightarrow> error option"
  env_analyze :: "string \<Rightarrow> string"
  env_uuid :: "string \<Rightarrow> string"
  env_rewrite :: "string \<Rightarrow> error + string"
  env_qa :: "nat \<Rightarrow> string \<Rightarrow> string \<Rightarrow> string \<Rightarrow> error + string option list"
  env_default_prompt :: string

text \<open>\<open>obj[k] = v\<close> on an object kept as the list of its properties.\<close>

fun obj_set :: "string \<Rightarrow> 'v \<Rightarrow> (string \<times> 'v) list \<Rightarrow> (string \<times> 'v) list" where
  "obj_set k v [] = [(k, v)]"
| "obj_set k v ((k', v') # m) = (if k' = k then (k', v) # m else (k', v') # obj_set k v m)"

definition is_json :: "string \<Rightarrow> bool" where
  "is_json f = suffix ''.json'' f"

text \<open>The test \<open>/\.(png|jpg|jpeg|gif)$/i\<close> and the replacement of that extension.\<close>

definition image_ext :: "string \<Rightarrow> string option" where
  "image_ext f = find (\<lambda>e. suffix e (toLowerCase f)) [''.png'', ''.jpg'', ''.jpeg'', ''.gif'']"

definition is_image :: "string \<Rightarrow> bool" where
  "is_image f = (image_ext f \<noteq> None)"

definition replace_ext :: "string \<Rightarrow> string \<Rightarrow> string" where
  "replace_ext f new =
     (case image_ext f of None \<Rightarrow> f | Some e \<Rightarrow> take (length f - length e) f @ new)"

section \<open>Synonym generation (optimizeExtractSynonyms.ts)\<close>

text \<open>The pages with real content, in directory order; a file that fails is skipped.\<close>

definition loadWikiDocs :: "Env \<Rightarrow> (string \<times> WikiJson option) list \<Rightarrow> DocUnit list" where
  "loadWikiDocs env files =
     concat (map (\<lambda>(file, parsed).
        case parsed of
          None \<Rightarrow> []
        | Some json \<Rightarrow>
            let content = env_cleanWikiText env (wj_content json)
            in if length content > 20 then [\<lparr>doc_name = file, doc_text = content\<rparr>] else [])
       (filter (\<lambda>(file, parsed). is_json file) files))"

text \<open>
  \<open>generateSynonyms\<close>: the new state, the value returned (\<open>None\<close> for \<open>null\<close>) and the
  extraction calls made.
\<close>

definition generateSynonyms ::
  "Env \<Rightarrow> World \<Rightarrow> World \<times> (string \<times> string list) list option \<times> (DocUnit list \<times> nat) list" where
  "generateSynonyms env w =
     (let w1 = w\<lparr>synonyms_json := None\<rparr>
      in case wiki_files w1 of
           None \<Rightarrow> (w1, None, [])
         | Some files \<Rightarrow>
             let wikiDocs = loadWikiDocs env files;
                 st = runBatches (env_extract env) wikiDocs;
                 finalOutput = mergeStep (bs_results st)
             in (w1\<lparr>synonyms_json := Some finalOutput\<rparr>, Some finalOutput, bs_calls st))"

section \<open>The sync (geminiService.ts)\<close>

definition loadHashCache :: "World \<Rightarrow> (string \<times> string) list" where
  "loadHashCache w = (case image_hash_cache w of None \<Rightarrow> [] | Some cache \<Rightarrow> cache)"

definition saveHashCache :: "(string \<times> string) list \<Rightarrow> World \<Rightarrow> World" where
  "saveHashCache cache w = w\<lparr>image_hash_cache := Some cache\<rparr>"

definition clearImageHashCache :: "World \<Rightarrow> World" where
  "clearImageHashCache w = w\<lparr>image_hash_cache := None\<rparr>"

definition initializeGemini :: "World \<Rightarrow> World" where
  "initializeGemini w = (if \<not> ai_ready w then w\<lparr>ai_ready := True\<rparr> else w)"

definition findRagStoreByDisplayName :: "Env \<Rightarrow> World \<Rightarrow> string \<Rightarrow> error + RagStore option" where
  "findRagStoreByDisplayName env w displayName =
     (case env_list_error env of
        Some e \<Rightarrow> Inl e
      | None \<Rightarrow> Inr (find (\<lambda>store. rs_displayName store = displayName) (rag_stores w)))"

text \<open>\<open>pagePath = json.title || json.path || json.source || file\<close>; an exported page has no \<open>path\<close>.\<close>

definition pagePath :: "string \<Rightarrow> WikiJson \<Rightarrow> string" where
  "pagePath file json =
     (if wj_title json \<noteq> [] then wj_title json
      else if wj_source json \<noteq> [] then wj_source json else file)"

fun buildImagePageMapLoop ::
  "Env \<Rightarrow> (string \<times> WikiJson option) list \<Rightarrow> (string \<times> string) list \<Rightarrow>
   error + (string \<times> string) list" where
  "buildImagePageMapLoop env [] m = Inr m"
| "buildImagePageMapLoop env ((file, parsed) # rest) m =
     (case parsed of
        None \<Rightarrow> Inl (Error ''Unexpected token in JSON'')
      | Some json \<Rightarrow>
          buildImagePageMapLoop env rest
            (fold (\<lambda>imageName m'. if imageName \<noteq> [] then obj_set imageName (pagePath file json) m' else m')
               (env_imageRefs env (wj_content json)) m))"

definition buildImagePageMap :: "Env \<Rightarrow> World \<Rightarrow> error + (string \<times> string) list" where
  "buildImagePageMap env w =
     (case wiki_files w of
        None \<Rightarrow> Inr []
      | Some files \<Rightarrow> buildImagePageMapLoop env (filter (\<lambda>(file, parsed). is_json file) files) [])"

text \<open>
  \<open>uploadTextToRag\<close>: the upload rejects, or the document is added to the store of that
  name.
\<close>

definition uploadTextToRag ::
  "Env \<Rightarrow> string \<Rightarrow> string \<Rightarrow> string \<Rightarrow> (string \<times> string) list \<Rightarrow> World \<Rightarrow> World \<times> error option" where
  "uploadTextToRag env storeName content filename metadata w =
     (case env_upload_error env filename of
        Some e \<Rightarrow> (w, Some e)
      | None \<Rightarrow>
          (w\<lparr>rag_stores :=
               map (\<lambda>store. if rs_name store = storeName
                             then store\<lparr>rs_docs := rs_docs store @
                                    [\<lparr>rd_displayName = filename, rd_content = content,
                                      rd_metadata = metadata\<rparr>]\<rparr>
                             else store)
                 (rag_stores w)\<rparr>,
           None))"

text \<open>What \<open>processImagesToRag\<close> logs for an image.\<close>

datatype ImageEvent =
  RuntimeDuplicate string | HashMatch string | Analysing string | Uploaded string | Failed string

record ImageLoop =
  il_world :: World
  il_processedInThisRun :: "string list"
  il_hashCache :: "(string \<times> string) list"
  il_uploadedImages :: nat
  il_log :: "ImageEvent list"

text \<open>
  The body of the loop over the images; \<open>img\<close> is the loop variable \<open>image\<close> (a name
  that HOL uses).
\<close>

definition processImage ::
  "Env \<Rightarrow> string \<Rightarrow> (string \<times> string) list \<Rightarrow> string \<Rightarrow> ImageLoop \<Rightarrow> ImageLoop" where
  "processImage env storeName imagePageMap img st =
     (if img \<in> set (il_processedInThisRun st)
      then st\<lparr>il_log := il_log st @ [RuntimeDuplicate img]\<rparr>
      else
        let st1 = st\<lparr>il_processedInThisRun := il_processedInThisRun st @ [img]\<rparr>;
            hash = env_md5 env (image_bytes (il_world st1) img)
        in if map_of (il_hashCache st1) img = Some hash
           then st1\<lparr>il_log := il_log st1 @ [HashMatch img]\<rparr>
           else
             let description = env_analyze env img;
                 sourcePage = (case map_of imagePageMap img of
                                 None \<Rightarrow> ''Unknown''
                               | Some p \<Rightarrow> if p = [] then ''Unknown'' else p);
                 content = ''SOURCE PAGE: '' @ sourcePage @ [CHR 0x0A] @
                           ''IMAGE: '' @ img @ [CHR 0x0A, CHR 0x0A] @
                           ''DESCRIPTION:'' @ [CHR 0x0A] @ description;
                 outputName = replace_ext img ''.txt'';
                 guid = env_uuid env img;
                 (w2, err) = uploadTextToRag env storeName content outputName
                               [(''type'', ''wiki-image''), (''source_page'', sourcePage),
                                (''image_name'', img @ ''-'' @ guid), (''image_guid'', guid)]
                               (il_world st1)
             in case err of
                  Some e \<Rightarrow>
                    st1\<lparr>il_world := w2, il_log := il_log st1 @ [Analysing img, Failed img]\<rparr>
                | None \<Rightarrow>
                    let hashCache = obj_set img hash (il_hashCache st1)
                    in st1\<lparr>il_world := saveHashCache hashCache w2,
                           il_hashCache := hashCache,
                           il_uploadedImages := il_uploadedImages st1 + 1,
                           il_log := il_log st1 @ [Analysing img, Uploaded img]\<rparr>)"

record ImagesResult =
  uploadedImages :: nat
  ir_store :: string
  ir_log :: "ImageEvent list"

definition processImagesToRag :: "Env \<Rightarrow> string \<Rightarrow> World \<Rightarrow> World \<times> (error + ImagesResult)" where
  "processImagesToRag env storeName w =
     (case buildImagePageMap env w of
        Inl e \<Rightarrow> (w, Inl e)
      | Inr imagePageMap \<Rightarrow>
          (case wiki_images w of
             None \<Rightarrow> (w, Inl (Error ''ENOENT: no such file or directory, scandir''))
           | Some listing \<Rightarrow>
               let images = filter is_image listing;
                   st = fold (processImage env storeName imagePageMap) images
                          \<lparr>il_world = w, il_processedInThisRun = [],
                           il_hashCache = loadHashCache w, il_uploadedImages = 0, il_log = []\<rparr>
               in (il_world st,
                   Inr \<lparr>uploadedImages = il_uploadedImages st, ir_store = storeName,
                        ir_log = il_log st\<rparr>)))"

text \<open>
  \<open>SetUpFileSearchStore\<close>: delete the store of the configured name when one with a name
  exists, then create a new one.
\<close>

definition SetUpFileSearchStore :: "Env \<Rightarrow> World \<Rightarrow> World \<times> (error + string)" where
  "SetUpFileSearchStore env w =
     (case findRagStoreByDisplayName env w (env_DATASET_NAME env) of
        Inl e \<Rightarrow> (w, Inl e)
      | Inr existingStore \<Rightarrow>
          let deleted =
                (case existingStore of
                   None \<Rightarrow> (w, None)
                 | Some store \<Rightarrow>
                     if rs_name store \<noteq> []
                     then (case env_delete_error env (rs_name store) of
                             Some e \<Rightarrow> (w, Some e)
                           | None \<Rightarrow>
                               (w\<lparr>rag_stores :=
                                    filter (\<lambda>s. rs_name s \<noteq> rs_name store) (rag_stores w)\<rparr>,
                                None))
                     else (w, None))
          in case deleted of
               (w1, Some e) \<Rightarrow> (w1, Inl e)
             | (w1, None) \<Rightarrow>
                 (case env_create env of
                    Inl e \<Rightarrow> (w1, Inl e)
                  | Inr name \<Rightarrow>
                      let w2 = w1\<lparr>rag_stores := rag_stores w1 @
                                    [\<lparr>rs_name = name, rs_displayName = env_DATASET_NAME env,
                                      rs_docs = []\<rparr>]\<rparr>
                      in if name = [] then (w2, Inl (Error ''Failed to create new RAG store''))
                         else (w2, Inr name)))"

definition MAX_SYNONYM_GROUPS :: nat where
  "MAX_SYNONYM_GROUPS = 15"

definition synonymMetadata :: "string list \<Rightarrow> (string \<times> string) list" where
  "synonymMetadata synonyms =
     (if length synonyms > 0
      then map (\<lambda>(index, chunk).
                  (if index = 0 then ''synonyms'' else ''synonyms_'' @ dec (index + 1), chunk))
             (enumerate 0 (take MAX_SYNONYM_GROUPS (chunkSynonyms synonyms 255)))
      else [])"

text \<open>The loop over the text files, with the counter \<open>textFilesUploaded\<close>.\<close>

fun uploadTextFiles ::
  "Env \<Rightarrow> string \<Rightarrow> (string \<times> WikiJson option) list \<Rightarrow> nat \<Rightarrow> World \<Rightarrow> World \<times> (error + nat)" where
  "uploadTextFiles env storeName [] textFilesUploaded w = (w, Inr textFilesUploaded)"
| "uploadTextFiles env storeName ((file, parsed) # rest) textFilesUploaded w =
     (case parsed of
        None \<Rightarrow> (w, Inl (Error ''Unexpected token in JSON''))
      | Some json \<Rightarrow>
          let content = ''TITLE: '' @ wj_title json @ '' '' @ [CHR 0x0A] @
                        ''SOURCE: '' @ wj_source json @ '' '' @ [CHR 0x0A, CHR 0x0A] @
                        wj_content json @ '' '';
              synonyms = getSynonymsForContent (env_synonymConfigs env) content;
              metadata = [(''type'', ''wiki-text''), (''wiki_title'', wj_title json),
                          (''wiki_file'', file)] @ synonymMetadata synonyms
          in case uploadTextToRag env storeName content file metadata w of
               (w1, Some e) \<Rightarrow> (w1, Inl e)
             | (w1, None) \<Rightarrow> uploadTextFiles env storeName rest (textFilesUploaded + 1) w1)"

record SyncResult =
  textFilesUploaded :: nat
  imageFilesUploaded :: nat
  sr_store :: string

text \<open>The \<open>try\<close> block of \<open>syncWikiToGeminiRag\<close>.\<close>

definition syncTry :: "Env \<Rightarrow> World \<Rightarrow> World \<times> (error + SyncResult)" where
  "syncTry env w =
     (case wiki_files w of
        None \<Rightarrow> (w, Inl (Error ''Wiki export folder not found''))
      | Some files \<Rightarrow>
          let textFiles = filter (\<lambda>(file, parsed). is_json file) files
          in if length textFiles = 0
             then (w, Inl (Error ''No wiki text files found. Aborting Gemini sync to protect store.''))
             else
               let w1 = clearImageHashCache w
               in case SetUpFileSearchStore env w1 of
                    (w2, Inl e) \<Rightarrow> (w2, Inl e)
                  | (w2, Inr storeName) \<Rightarrow>
                      let (w3, synonyms, calls) = generateSynonyms env w2
                      in case uploadTextFiles env storeName textFiles 0 w3 of
                           (w4, Inl e) \<Rightarrow> (w4, Inl e)
                         | (w4, Inr n) \<Rightarrow>
                             (case processImagesToRag env storeName w4 of
                                (w5, Inl e) \<Rightarrow> (w5, Inl e)
                              | (w5, Inr imagesProcessed) \<Rightarrow>
                                  (w5, Inr \<lparr>textFilesUploaded = n,
                                            imageFilesUploaded = uploadedImages imagesProcessed,
                                            sr_store = storeName\<rparr>)))"

text \<open>
  \<open>syncWikiToGeminiRag\<close>: the guard, the \<open>try\<close> block whose error is caught and logged,
  and the \<open>finally\<close> that clears the flag. \<open>None\<close> is the return value \<open>undefined\<close>.
\<close>

definition syncWikiToGeminiRag :: "Env \<Rightarrow> World \<Rightarrow> World \<times> SyncResult option" where
  "syncWikiToGeminiRag env w =
     (if syncRunning w then (w, None)
      else
        let w1 = initializeGemini (w\<lparr>syncRunning := True\<rparr>);
            (w2, r) = syncTry env w1
        in (w2\<lparr>syncRunning := False\<rparr>, case r of Inl e \<Rightarrow> None | Inr res \<Rightarrow> Some res))"

section \<open>Query rewriting and search (rewriteQueryForFileSearch.ts, geminiService.ts)\<close>

fun findRelevantSynonyms :: "string \<Rightarrow> SynonymConfig list \<Rightarrow> SynonymConfig list" where
  "findRelevantSynonyms lowerQ [] = []"
| "findRelevantSynonyms lowerQ (entry # rest) =
     (let termHit = str_includes lowerQ (toLowerCase (cfg_term entry));
          synonymHit = synonymInText lowerQ entry
      in if termHit \<or> synonymHit then entry # findRelevantSynonyms lowerQ rest
         else findRelevantSynonyms lowerQ rest)"

text \<open>
  \<open>buildSynonymContext\<close>. \<open>e.synonyms.join\<close> is not guarded: on an entry whose
  \<open>synonyms\<close> is not an array it throws a \<open>TypeError\<close>.
\<close>

fun synonymLines :: "SynonymConfig list \<Rightarrow> error + string list" where
  "synonymLines [] = Inr []"
| "synonymLines (e # rest) =
     (case cfg_synonyms e of
        None \<Rightarrow> Inl (Error ''e.synonyms.join is not a function'')
      | Some ss \<Rightarrow>
          (case synonymLines rest of
             Inl err \<Rightarrow> Inl err
           | Inr ls \<Rightarrow> Inr ((''- '' @ cfg_term e @ '': '' @ join '', '' ss) # ls)))"

definition buildSynonymContext :: "SynonymConfig list \<Rightarrow> error + string" where
  "buildSynonymContext entries =
     (if length entries = 0 then Inr ''None found for this question.''
      else case synonymLines entries of
             Inl err \<Rightarrow> Inl err
           | Inr ls \<Rightarrow> Inr (join [CHR 0x0A] ls))"

text \<open>The prompt of the rewriter, line by line.\<close>

definition rewritePrompt :: "string \<Rightarrow> string \<Rightarrow> string" where
  "rewritePrompt synonymContext originalQuestion =
     [CHR 0x0A] @
     join [CHR 0x0A]
       [''You are a query rewriting assistant for an internal IT documentation search.'',
        '''',
        ''Rules:'',
        ''- You MUST rewrite the user question into a FileSearch-friendly search instruction.'',
        ''- ALWAYS start with the phrase: Search document title, content, metadata that contains term'',
        ''- Extract the 3 to 5 most important search terms from the question.'',
        ''- Include matching synonyms from provided synonym list.'',
        ''- For every extracted search term or synonym, wrap the term in double quotes.'',
        ''- Terms must be separated by commas.'',
        ''- After the list of quoted terms, add a short phrase describing the user's intent'',
        ''  such as: and summarize how to <user intent>.'',
        ''- Output MUST be plain text, one sentence only.'',
        ''- NO markdown. NO JSON. NO bullet points.'',
        '''',
        ''Relevant domain terms and synonyms for expansion:'',
        synonymContext,
        '''',
        ''User question:'',
        [CHR 0x22] @ originalQuestion @ [CHR 0x22],
        '''',
        ''Rewrite the instruction now.'',
        '''']"

definition rewriteUserQuestionForFileSearch :: "Env \<Rightarrow> string \<Rightarrow> error + string" where
  "rewriteUserQuestionForFileSearch env originalQuestion =
     (let relevant = findRelevantSynonyms (toLowerCase originalQuestion) (env_synonymEntries env)
      in case buildSynonymContext relevant of
           Inl err \<Rightarrow> Inl err
         | Inr synonymContext \<Rightarrow>
             (case env_rewrite env (rewritePrompt synonymContext originalQuestion) of
                Inl err \<Rightarrow> Inl err
              | Inr res \<Rightarrow> Inr (trim res)))"

definition extractText :: "string option list \<Rightarrow> string" where
  "extractText parts =
     join [CHR 0x0A] (map (\<lambda>p. case p of None \<Rightarrow> [] | Some t \<Rightarrow> t) parts)"

text \<open>The retry loop of \<open>searchWiki\<close>; \<open>n\<close> counts the generation calls made.\<close>

function searchLoop ::
  "Env \<Rightarrow> string \<Rightarrow> string \<Rightarrow> string \<Rightarrow> int \<Rightarrow> nat \<Rightarrow> error + string" where
  "searchLoop env storeName rewriteQuestion systemInstructionPrompt retryCounter n =
     (if retryCounter \<ge> 0
      then
        (case env_qa env n rewriteQuestion systemInstructionPrompt storeName of
           Inl err \<Rightarrow> Inl err
         | Inr parts \<Rightarrow>
             let answerText = extractText parts
             in if answerText \<noteq> [] \<and> length (trim answerText) > 0
                then Inr answerText
                else searchLoop env storeName rewriteQuestion systemInstructionPrompt
                       (retryCounter - 1) (n + 1))
      else Inr ''No answer found.'')"
  by pat_completeness auto
termination
  by (relation "measure (\<lambda>(env, storeName, q, p, retryCounter, n). nat (retryCounter + 1))") auto

declare searchLoop.simps [simp del]

text \<open>\<open>searchWiki\<close>: the new state and the answer, or the error it throws.\<close>

definition searchWiki :: "Env \<Rightarrow> string \<Rightarrow> string \<Rightarrow> World \<Rightarrow> World \<times> (error + string)" where
  "searchWiki env query customPrompt w =
     (let w1 = initializeGemini w
      in case findRagStoreByDisplayName env w1 (env_DATASET_NAME env) of
           Inl err \<Rightarrow> (w1, Inl err)
         | Inr found \<Rightarrow>
             (case (case found of None \<Rightarrow> None
                                | Some store \<Rightarrow> if rs_name store \<noteq> [] then Some store else None) of
                None \<Rightarrow> (w1, Inl (Error (''RAG store '' @ env_DATASET_NAME env @ '' not found'')))
              | Some store \<Rightarrow>
                  (case rewriteUserQuestionForFileSearch env query of
                     Inl err \<Rightarrow> (w1, Inl err)
                   | Inr rewriteQuestion \<Rightarrow>
                       let systemInstructionPrompt =
                             (if customPrompt \<noteq> [] then customPrompt else env_default_prompt env)
                       in (w1, searchLoop env (rs_name store) rewriteQuestion
                                 systemInstructionPrompt 1 0))))"

section \<open>Notions used to state the results\<close>

text \<open>The source directory holds no document file: it is missing, or no entry ends in .json.\<close>

definition no_documents :: "World \<Rightarrow> bool" where
  "no_documents w =
     (case wiki_files w of
        None \<Rightarrow> True
      | Some files \<Rightarrow> filter (\<lambda>(file, parsed). is_json file) files = [])"

text \<open>The parts of the result of \<open>generateSynonyms\<close>.\<close>

definition synonymsWorld :: "Env \<Rightarrow> World \<Rightarrow> World" where
  "synonymsWorld env w = fst (generateSynonyms env w)"

definition synonymsOutput :: "Env \<Rightarrow> World \<Rightarrow> (string \<times> string list) list option" where
  "synonymsOutput env w = fst (snd (generateSynonyms env w))"

definition synonymsCalls :: "Env \<Rightarrow> World \<Rightarrow> (DocUnit list \<times> nat) list" where
  "synonymsCalls env w = snd (snd (generateSynonyms env w))"

text \<open>A synonym, and an entry of the index, in canonical form.\<close>

definition syn_ok :: "string \<Rightarrow> string \<Rightarrow> bool" where
  "syn_ok t s = (toLowerCase s = s \<and> trim s = s \<and> s \<noteq> [] \<and> s \<noteq> t)"

definition entry_ok :: "string \<times> string list \<Rightarrow> bool" where
  "entry_ok e =
     (toLowerCase (fst e) = fst e \<and> trim (fst e) = fst e \<and> fst e \<noteq> [] \<and>
      distinct (snd e) \<and> list_all (syn_ok (fst e)) (snd e))"

definition map_inv :: "SynMap \<Rightarrow> bool" where
  "map_inv m = (distinct (map fst m) \<and> list_all entry_ok m)"

text \<open>The invariant of the batching loop, after the units \<open>units\<close>.\<close>

definition call_ok :: "DocUnit list \<times> nat \<Rightarrow> bool" where
  "call_ok c = (batch_chars (fst c) \<le> MAX_CHARS_PER_BATCH)"

definition batch_inv :: "DocUnit list \<Rightarrow> BatchState \<Rightarrow> bool" where
  "batch_inv units st =
     (bs_size st = batch_chars (bs_batch st) \<and> bs_size st \<le> MAX_CHARS_PER_BATCH \<and>
      list_all call_ok (bs_calls st) \<and>
      fst ` set (bs_calls st) \<subseteq> set (flushed (bs_calls st)) \<and>
      concat (flushed (bs_calls st)) @ bs_batch st = units)"

text \<open>
  Notions for stating what the response chunker returns. \<open>weave chunks gaps\<close> is the
  chunks in order with a gap after each; \<open>cut_slice maxSize c\<close> says that \<open>c\<close> is what one
  pass of the loop cuts off: \<open>maxSize\<close> characters, or a shorter piece that ends in the
  period found beyond index 2000.
\<close>

fun weave :: "string list \<Rightarrow> string list \<Rightarrow> string" where
  "weave [] gaps = []"
| "weave (c # chunks) [] = c @ weave chunks []"
| "weave (c # chunks) (g # gaps) = c @ g @ weave chunks gaps"

definition cut_slice :: "int \<Rightarrow> string \<Rightarrow> bool" where
  "cut_slice maxSize c =
     (int (length c) = maxSize \<or>
      (2001 < length c \<and> int (length c) \<le> maxSize \<and> last c = CHR ''.''))"

text \<open>
  The invariant of the loop over the images for a pass that starts in \<open>w\<close> with no hash
  cache: every record of the cache was written by this pass, no image was skipped as a
  hash match, and every image met so far was analysed.
\<close>

definition fresh_inv :: "Env \<Rightarrow> World \<Rightarrow> ImageLoop \<Rightarrow> bool" where
  "fresh_inv env w st =
     (image_bytes (il_world st) = image_bytes w \<and>
      (\<forall>a h. map_of (il_hashCache st) a = Some h \<longrightarrow>
         a \<in> set (il_processedInThisRun st) \<and> h = env_md5 env (image_bytes w a)) \<and>
      (image_hash_cache (il_world st) = None \<or>
       image_hash_cache (il_world st) = Some (il_hashCache st)) \<and>
      (\<forall>a. HashMatch a \<notin> set (il_log st)) \<and>
      (\<forall>a \<in> set (il_processedInThisRun st). Analysing a \<in> set (il_log st)))"

section \<open>A sample installation\<close>

definition demo_env :: Env where
  "demo_env =
     \<lparr>env_DATASET_NAME = ''IT_Wiki'',
      env_synonymConfigs = [\<lparr>cfg_term = ''vpn'', cfg_synonyms = Some [''virtual private network'']\<rparr>],
      env_synonymEntries = [\<lparr>cfg_term = ''vpn'', cfg_synonyms = Some [''virtual private network'']\<rparr>],
      env_cleanWikiText = (\<lambda>s. s),
      env_imageRefs = (\<lambda>s. [''shot.png'']),
      env_md5 = (\<lambda>b. ''md5:'' @ b),
      env_extract = (\<lambda>n batch. Some [Entry (Some ''VPN'') (Some [''Virtual Private Network''])]),
      env_list_error = None,
      env_delete_error = (\<lambda>name. None),
      env_create = Inr ''fileSearchStores/it-wiki'',
      env_upload_error = (\<lambda>filename. None),
      env_analyze = (\<lambda>img. ''{}''),
      env_uuid = (\<lambda>img. ''0000''),
      env_rewrite = (\<lambda>prompt. Inl (Error ''503 Service Unavailable'')),
      env_qa = (\<lambda>n q p s. Inr [Some ''Use the VPN client.'']),
      env_default_prompt = ''You are an expert IT knowledge assistant.''\<rparr>"

definition demo_world :: World where
  "demo_world =
     \<lparr>syncRunning = False, ai_ready = False,
      wiki_files = Some [(''vpn.json'',
                          Some \<lparr>wj_title = ''/VPN'', wj_source = ''https://wiki/VPN'',
                                wj_content = ''Connect to the VPN before you open the wiki.''\<rparr>)],
      wiki_images = Some [''shot.png''],
      image_bytes = (\<lambda>name. ''PNG''),
      image_hash_cache = None,
      synonyms_json = None,
      rag_stores = []\<rparr>"

text \<open>The same installation after a store was built, with an empty source directory.\<close>

definition demo_empty :: World where
  "demo_empty =
     demo_world\<lparr>wiki_files := Some [(''notes.txt'', None)],
                image_hash_cache := Some [(''shot.png'', ''md5:PNG'')],
                rag_stores := [\<lparr>rs_name = ''fileSearchStores/it-wiki'',
                                rs_displayName = ''IT_Wiki'', rs_docs = []\<rparr>]\<rparr>"

text \<open>
  Invariants of the loop over the images, for a pass that starts in \<open>w\<close>: what holds
  of every image \<open>a\<close> whose upload is logged, and what holds of an image \<open>a\<close> that the
  cache already lists with the digest \<open>h\<close>.
\<close>

definition pass_inv :: "Env \<Rightarrow> World \<Rightarrow> ImageLoop \<Rightarrow> bool" where
  "pass_inv env w st =
     (image_bytes (il_world st) = image_bytes w \<and>
      (\<forall>a. Uploaded a \<in> set (il_log st) \<longrightarrow>
         a \<in> set (il_processedInThisRun st) \<and>
         map_of (il_hashCache st) a = Some (env_md5 env (image_bytes w a)) \<and>
         image_hash_cache (il_world st) = Some (il_hashCache st)))"

definition hit_inv :: "string \<Rightarrow> string \<Rightarrow> World \<Rightarrow> ImageLoop \<Rightarrow> bool" where
  "hit_inv a h w st =
     (image_bytes (il_world st) = image_bytes w \<and>
      map_of (il_hashCache st) a = Some h \<and>
      map_of (loadHashCache (il_world st)) a = Some h \<and>
      Analysing a \<notin> set (il_log st) \<and> Uploaded a \<notin> set (il_log st) \<and>
      Failed a \<notin> set (il_log st) \<and>
      (a \<in> set (il_processedInThisRun st) \<longrightarrow> HashMatch a \<in> set (il_log st)))"

text \<open>The sample installation with a page of 50000 characters before the short one.\<close>

definition demo_big :: World where
  "demo_big =
     demo_world\<lparr>wiki_files :=
       Some [(''big.json'',
              Some \<lparr>wj_title = ''/Big'', wj_source = ''https://wiki/Big'',
                    wj_content = replicate 50000 CHR ''a''\<rparr>),
             (''vpn.json'',
              Some \<lparr>wj_title = ''/VPN'', wj_source = ''https://wiki/VPN'',
                    wj_content = ''Connect to the VPN before you open the wiki.''\<rparr>)]\<rparr>"

text \<open>
  A small installation for two sync runs in a row: one page, too short to be sent to
  extraction, and one image. \<open>mini_synced\<close> is its state after a sync run.
\<close>

definition mini_env :: Env where
  "mini_env =
     \<lparr>env_DATASET_NAME = ''W'',
      env_synonymConfigs = [],
      env_synonymEntries = [],
      env_cleanWikiText = (\<lambda>s. s),
      env_imageRefs = (\<lambda>s. []),
      env_md5 = (\<lambda>b. ''#'' @ b),
      env_extract = (\<lambda>n batch. None),
      env_list_error = None,
      env_delete_error = (\<lambda>name. None),
      env_create = Inr ''s'',
      env_upload_error = (\<lambda>filename. None),
      env_analyze = (\<lambda>img. ''d''),
      env_uuid = (\<lambda>img. ''u''),
      env_rewrite = (\<lambda>prompt. Inr prompt),
      env_qa = (\<lambda>n q p s. Inr []),
      env_default_prompt = ''''\<rparr>"

definition mini_world :: World where
  "mini_world =
     \<lparr>syncRunning = False, ai_ready = False,
      wiki_files = Some [(''p.json'', Some \<lparr>wj_title = ''T'', wj_source = ''S'', wj_content = ''c''\<rparr>)],
      wiki_images = Some [''a.png''],
      image_bytes = (\<lambda>name. ''x''),
      image_hash_cache = None,
      synonyms_json = None,
      rag_stores = []\<rparr>"

definition mini_synced :: World where
  "mini_synced =
     \<lparr>syncRunning = False, ai_ready = True,
      wiki_files = Some [(''p.json'', Some \<lparr>wj_title = ''T'', wj_source = ''S'', wj_content = ''c''\<rparr>)],
      wiki_images = Some [''a.png''],
      image_bytes = (\<lambda>name. ''x''),
      image_hash_cache = Some [(''a.png'', ''#x'')],
      synonyms_json = Some [],
      rag_stores =
        [\<lparr>rs_name = ''s'', rs_displayName = ''W'',
          rs_docs =
            [\<lparr>rd_displayName = ''p.json'',
              rd_content = ''TITLE: T '' @ [CHR 0x0A] @ ''SOURCE: S '' @ [CHR 0x0A, CHR 0x0A] @ ''c '',
              rd_metadata = [(''type'', ''wiki-text''), (''wiki_title'', ''T''),
                             (''wiki_file'', ''p.json'')]\<rparr>,
             \<lparr>rd_displayName = ''a.txt'',
              rd_content = ''SOURCE PAGE: Unknown'' @ [CHR 0x0A] @ ''IMAGE: a.png'' @
                           [CHR 0x0A, CHR 0x0A] @ ''DESCRIPTION:'' @ [CHR 0x0A] @ ''d'',
              rd_metadata = [(''type'', ''wiki-image''), (''source_page'', ''Unknown''),
                             (''image_name'', ''a.png-u''), (''image_guid'', ''u'')]\<rparr>]\<rparr>]\<rparr>"

text \<open>
  The small installation with an empty store and no hash cache, and its state after one
  pass over the images.
\<close>

definition mini_fresh :: World where
  "mini_fresh =
     mini_world\<lparr>rag_stores := [\<lparr>rs_name = ''s'', rs_displayName = ''W'', rs_docs = []\<rparr>]\<rparr>"

definition mini_pass1 :: World where
  "mini_pass1 =
     mini_world\<lparr>image_hash_cache := Some [(''a.png'', ''#x'')],
       rag_stores :=
         [\<lparr>rs_name = ''s'', rs_displayName = ''W'',
           rs_docs =
             [\<lparr>rd_displayName = ''a.txt'',
               rd_content = ''SOURCE PAGE: Unknown'' @ [CHR 0x0A] @ ''IMAGE: a.png'' @
                            [CHR 0x0A, CHR 0x0A] @ ''DESCRIPTION:'' @ [CHR 0x0A] @ ''d'',
               rd_metadata = [(''type'', ''wiki-image''), (''source_page'', ''Unknown''),
                              (''image_name'', ''a.png-u''), (''image_guid'', ''u'')]\<rparr>]\<rparr>]\<rparr>"

section \<open>Facts about strings\<close>

lemma of_char_toLowerChar:
  "(of_char (toLowerChar c) :: nat) =
     (let n = (of_char c :: nat)
      in if (65 \<le> n \<and> n \<le> 90) \<or> (192 \<le> n \<and> n \<le> 222 \<and> n \<noteq> 215)
         then n + 32 else n)"
  by (simp add: toLowerChar_def Let_def)

lemma toLowerChar_idem: "toLowerChar (toLowerChar c) = toLowerChar c"
proof -
  have "(of_char (toLowerChar (toLowerChar c)) :: nat) = of_char (toLowerChar c)"
    by (simp add: of_char_toLowerChar Let_def)
  then show ?thesis by simp
qed

lemma is_ws_toLowerChar: "is_ws (toLowerChar c) = is_ws c"
  by (simp add: is_ws_def of_char_toLowerChar Let_def)

lemma toLowerCase_idem: "toLowerCase (toLowerCase s) = toLowerCase s"
  by (simp add: toLowerCase_def toLowerChar_idem)

section \<open>Synonym lookup: the whole cluster is attached\<close>

lemma set_set_add: "set (set_add s found) = insert s (set found)"
  by (auto simp: set_add_def)

lemma distinct_set_add: "distinct found \<Longrightarrow> distinct (set_add s found)"
  by (simp add: set_add_def)

lemma set_fold_set_add: "set (fold (\<lambda>s f. set_add (g s) f) ss found) = g ` set ss \<union> set found"
  by (induction ss arbitrary: found) (auto simp: set_set_add)

lemma distinct_fold_set_add:
  "distinct found \<Longrightarrow> distinct (fold (\<lambda>s f. set_add (g s) f) ss found)"
  by (induction ss arbitrary: found) (auto simp: distinct_set_add)

lemma set_add_cluster: "set (add_cluster entry found) = set (cluster entry) \<union> set found"
  by (auto simp: add_cluster_def cluster_def Let_def set_fold_set_add set_set_add split: option.splits)

lemma distinct_add_cluster: "distinct found \<Longrightarrow> distinct (add_cluster entry found)"
  by (auto simp: add_cluster_def Let_def distinct_fold_set_add distinct_set_add split: option.splits)

lemma hit_mentions:
  "(str_includes (toLowerCase content) (toLowerCase (cfg_term entry)) \<or>
      synonymInText (toLowerCase content) entry) = mentions content entry"
  by (auto simp: mentions_def cluster_def synonymInText_def list_ex_iff split: option.splits)

lemma set_getSynonymsLoop:
  "set (getSynonymsLoop (toLowerCase content) cfgs found) =
     set found \<union> (\<Union>entry \<in> {e \<in> set cfgs. mentions content e}. set (cluster entry))"
proof (induction cfgs arbitrary: found)
  case Nil
  show ?case by simp
next
  case (Cons e cfgs)
  show ?case
  proof (cases "mentions content e")
    case True
    then have "getSynonymsLoop (toLowerCase content) (e # cfgs) found =
               getSynonymsLoop (toLowerCase content) cfgs (add_cluster e found)"
      using hit_mentions [of content e] by (simp add: Let_def)
    then show ?thesis using True by (auto simp: Cons.IH set_add_cluster)
  next
    case False
    then have "getSynonymsLoop (toLowerCase content) (e # cfgs) found =
               getSynonymsLoop (toLowerCase content) cfgs found"
      using hit_mentions [of content e] by (simp add: Let_def)
    then show ?thesis using False by (auto simp: Cons.IH)
  qed
qed

lemma distinct_getSynonymsLoop:
  "distinct found \<Longrightarrow> distinct (getSynonymsLoop lower cfgs found)"
  by (induction cfgs arbitrary: found) (auto simp: Let_def distinct_add_cluster)

text \<open>
  C10. For every content string and every configured entry: if the lowercased content
  contains the entry's lowercased term or one of its lowercased synonyms, the result of
  \<open>getSynonymsForContent\<close> contains the lowercased term and all lowercased synonyms
  of that entry; the result holds nothing but the clusters of such entries; and it has
  no duplicates.
\<close>

theorem getSynonymsForContent_whole_cluster:
  "(\<forall>entry \<in> set synonymConfigs. mentions content entry \<longrightarrow>
       set (cluster entry) \<subseteq> set (getSynonymsForContent synonymConfigs content)) \<and>
   set (getSynonymsForContent synonymConfigs content) =
     (\<Union>entry \<in> {e \<in> set synonymConfigs. mentions content e}. set (cluster entry)) \<and>
   distinct (getSynonymsForContent synonymConfigs content)"
  unfolding getSynonymsForContent_def
  by (auto simp: set_getSynonymsLoop distinct_getSynonymsLoop)

theorem getSynonymsForContent_whole_cluster_witness:
  "mentions ''How do I set up a Virtual Private Network''
     \<lparr>cfg_term = ''VPN'', cfg_synonyms = Some [''virtual private network'', ''Tunnel'']\<rparr> \<and>
   set [''vpn'', ''virtual private network'', ''tunnel''] \<subseteq>
     set (getSynonymsForContent
            [\<lparr>cfg_term = ''dns'', cfg_synonyms = Some [''name server'']\<rparr>,
             \<lparr>cfg_term = ''VPN'', cfg_synonyms = Some [''virtual private network'', ''Tunnel'']\<rparr>]
            ''How do I set up a Virtual Private Network'')"
proof -
  let ?e = "\<lparr>cfg_term = ''VPN'', cfg_synonyms = Some [''virtual private network'', ''Tunnel'']\<rparr>"
  let ?cfgs = "[\<lparr>cfg_term = ''dns'', cfg_synonyms = Some [''name server'']\<rparr>, ?e]"
  let ?q = "''How do I set up a Virtual Private Network''"
  have m: "mentions ?q ?e" by code_simp
  have c: "cluster ?e = [''vpn'', ''virtual private network'', ''tunnel'']" by code_simp
  have i: "?e \<in> set ?cfgs" by simp
  have "set (cluster ?e) \<subseteq> set (getSynonymsForContent ?cfgs ?q)"
    by (rule getSynonymsForContent_whole_cluster [THEN conjunct1, rule_format, OF i m])
  with m c show ?thesis by simp
qed

section \<open>Metadata chunker: round trip and bound\<close>

lemma join_merge: "join sep (xs @ (a @ sep @ b) # ys) = join sep (xs @ a # b # ys)"
proof (induction sep xs rule: join.induct)
  case (1 sep)
  show ?case by (cases ys) simp_all
next
  case (2 sep x)
  show ?case by (cases ys) simp_all
next
  case (3 sep x y zs)
  then show ?case by simp
qed

lemma slice0_nonneg: "0 \<le> n \<Longrightarrow> slice0 s n = take (nat n) s"
  by (simp add: slice0_def)

lemma join_chunkLoop:
  assumes "0 \<le> maxLen"
  shows "join '', '' (chunkLoop maxLen terms chunks current) =
         join '', '' (chunks @ (if current \<noteq> [] then [current] else []) @
                      map (\<lambda>t. take (nat maxLen) (trim t)) (filter (\<lambda>t. trim t \<noteq> []) terms))"
proof (induction terms arbitrary: chunks current)
  case Nil
  show ?case by simp
next
  case (Cons syn rest)
  let ?f = "\<lambda>t. take (nat maxLen) (trim t)"
  let ?r = "map ?f (filter (\<lambda>t. trim t \<noteq> []) rest)"
  show ?case
  proof (cases "trim syn = []")
    case True
    then show ?thesis by (simp add: Cons.IH)
  next
    case ne: False
    show ?thesis
    proof (cases "current = []")
      case cur: True
      show ?thesis
      proof (cases "int (length (trim syn)) > maxLen")
        case True
        then show ?thesis using ne cur assms
          by (simp add: Cons.IH Let_def slice0_nonneg)
      next
        case False
        then have "take (nat maxLen) (trim syn) = trim syn" by simp
        then show ?thesis using ne cur False
          by (simp add: Cons.IH Let_def)
      qed
    next
      case cur: False
      show ?thesis
      proof (cases "int (length current) + int (length ('', '' @ trim syn)) > maxLen")
        case over: True
        show ?thesis
        proof (cases "int (length (trim syn)) > maxLen")
          case True
          then show ?thesis using ne cur over assms
            by (simp add: Cons.IH Let_def slice0_nonneg)
        next
          case False
          then have "take (nat maxLen) (trim syn) = trim syn" by simp
          then show ?thesis using ne cur over False
            by (simp add: Cons.IH Let_def)
        qed
      next
        case fits: False
        then have t: "take (nat maxLen) (trim syn) = trim syn" by simp
        have "chunkLoop maxLen (syn # rest) chunks current =
              chunkLoop maxLen rest chunks (current @ '', '' @ trim syn)"
          using ne cur fits by (simp add: Let_def)
        then have "join '', '' (chunkLoop maxLen (syn # rest) chunks current) =
              join '', '' (chunks @ (current @ '', '' @ trim syn) # ?r)"
          using cur by (simp add: Cons.IH)
        also have "\<dots> = join '', '' (chunks @ current # trim syn # ?r)"
          by (rule join_merge)
        finally show ?thesis using ne cur t by simp
      qed
    qed
  qed
qed

lemma length_chunkLoop:
  assumes "0 \<le> maxLen"
  shows "\<forall>c \<in> set chunks. int (length c) \<le> maxLen \<Longrightarrow> int (length current) \<le> maxLen \<Longrightarrow>
         c \<in> set (chunkLoop maxLen terms chunks current) \<Longrightarrow> int (length c) \<le> maxLen"
proof (induction terms arbitrary: chunks current)
  case Nil
  then show ?case by (auto split: if_splits)
next
  case (Cons syn rest)
  show ?case
  proof (cases "trim syn = []")
    case True
    then show ?thesis using Cons by simp
  next
    case ne: False
    let ?add = "(if current \<noteq> [] then '', '' else []) @ trim syn"
    show ?thesis
    proof (cases "int (length current) + int (length ?add) > maxLen")
      case over: True
      let ?chunks1 = "(if current \<noteq> [] then chunks @ [current] else chunks)"
      have c1: "\<forall>c \<in> set ?chunks1. int (length c) \<le> maxLen"
        using Cons.prems(1,2) by auto
      show ?thesis
      proof (cases "int (length (trim syn)) > maxLen")
        case True
        then have eq: "chunkLoop maxLen (syn # rest) chunks current =
              chunkLoop maxLen rest (?chunks1 @ [slice0 (trim syn) maxLen]) []"
          using ne over by (simp add: Let_def)
        have "\<forall>c \<in> set (?chunks1 @ [slice0 (trim syn) maxLen]). int (length c) \<le> maxLen"
          using c1 assms by (auto simp: slice0_nonneg)
        then show ?thesis using Cons.IH [of "?chunks1 @ [slice0 (trim syn) maxLen]" "[]"] Cons.prems(3) assms
          unfolding eq by simp
      next
        case False
        then have eq: "chunkLoop maxLen (syn # rest) chunks current =
              chunkLoop maxLen rest ?chunks1 (trim syn)"
          using ne over by (simp add: Let_def)
        show ?thesis using Cons.IH [of ?chunks1 "trim syn"] c1 False Cons.prems(3)
          unfolding eq by simp
      qed
    next
      case fits: False
      then have eq: "chunkLoop maxLen (syn # rest) chunks current =
              chunkLoop maxLen rest chunks (current @ ?add)"
        using ne by (simp add: Let_def)
      show ?thesis using Cons.IH [of chunks "current @ ?add"] Cons.prems(1,3) fits
        unfolding eq by simp
    qed
  qed
qed

text \<open>
  C6. For a length limit \<open>maxLen \<ge> 0\<close> and every sequence of terms whose trimmed
  forms are non-empty: joining the chunks of \<open>chunkSynonyms terms maxLen\<close> with
  \<open>'', ''\<close> gives the trimmed terms joined with \<open>'', ''\<close>, where a term longer than
  \<open>maxLen\<close> is cut to its first \<open>maxLen\<close> characters; and no chunk is longer than
  \<open>maxLen\<close>.
\<close>

theorem chunkSynonyms_roundtrip_bound:
  assumes "0 \<le> maxLen" and "\<forall>t \<in> set terms. trim t \<noteq> []"
  shows "join '', '' (chunkSynonyms terms maxLen) =
           join '', '' (map (\<lambda>t. if int (length (trim t)) > maxLen then take (nat maxLen) (trim t) else trim t) terms) \<and>
         (\<forall>c \<in> set (chunkSynonyms terms maxLen). int (length c) \<le> maxLen)"
proof
  have f: "filter (\<lambda>t. trim t \<noteq> []) terms = terms"
    using assms(2) by (simp add: filter_id_conv)
  have m: "(\<lambda>t. if int (length (trim t)) > maxLen then take (nat maxLen) (trim t) else trim t) =
           (\<lambda>t. take (nat maxLen) (trim t))"
    by (rule ext) simp
  show "join '', '' (chunkSynonyms terms maxLen) =
        join '', '' (map (\<lambda>t. if int (length (trim t)) > maxLen then take (nat maxLen) (trim t) else trim t) terms)"
    unfolding chunkSynonyms_def m using join_chunkLoop [OF assms(1), of terms "[]" "[]"] f by simp
  show "\<forall>c \<in> set (chunkSynonyms terms maxLen). int (length c) \<le> maxLen"
    unfolding chunkSynonyms_def
    using length_chunkLoop [OF assms(1), of "[]" "[]" _ terms] assms(1) by auto
qed

theorem chunkSynonyms_roundtrip_bound_witness:
  "(0::int) \<le> 5 \<and>
   list_all (\<lambda>t. trim t \<noteq> []) [''  alpha '', ''beta'', ''gammadelta'', '' e''] \<and>
   join '', '' (chunkSynonyms [''  alpha '', ''beta'', ''gammadelta'', '' e''] 5) =
     ''alpha, beta, gamma, e'' \<and>
   list_all (\<lambda>c. int (length c) \<le> 5)
     (chunkSynonyms [''  alpha '', ''beta'', ''gammadelta'', '' e''] 5)"
proof -
  let ?terms = "[''  alpha '', ''beta'', ''gammadelta'', '' e'']"
  have h1: "(0::int) \<le> 5" by simp
  have h2: "\<forall>t \<in> set ?terms. trim t \<noteq> []" by code_simp
  have r: "join '', '' (map (\<lambda>t. if int (length (trim t)) > 5 then take (nat 5) (trim t) else trim t) ?terms) =
           ''alpha, beta, gamma, e''"
    by code_simp
  show ?thesis
    using chunkSynonyms_roundtrip_bound [OF h1 h2] h1 h2 unfolding r list_all_iff by blast
qed

section \<open>Response chunker: what concatenating the chunks gives\<close>

lemma filter_dropWhile_not: "filter (\<lambda>c. \<not> P c) (dropWhile P xs) = filter (\<lambda>c. \<not> P c) xs"
  by (induction xs) auto

lemma filter_trim: "filter (\<lambda>c. \<not> is_ws c) (trim s) = filter (\<lambda>c. \<not> is_ws c) s"
proof -
  have "filter (\<lambda>c. \<not> is_ws c) (trim s) =
        rev (filter (\<lambda>c. \<not> is_ws c) (dropWhile is_ws (rev (dropWhile is_ws s))))"
    by (simp add: trim_def rev_filter)
  also have "\<dots> = filter (\<lambda>c. \<not> is_ws c) (dropWhile is_ws s)"
    by (simp add: filter_dropWhile_not rev_filter)
  finally show ?thesis by (simp add: filter_dropWhile_not)
qed

lemma subseq_dropWhile: "subseq (dropWhile P xs) xs"
  by (metis suffix_dropWhile suffix_imp_subseq)

lemma subseq_trim: "subseq (trim s) s"
proof -
  have "suffix (dropWhile is_ws (rev (dropWhile is_ws s))) (rev (dropWhile is_ws s))"
    by (rule suffix_dropWhile)
  then have "prefix (trim s) (dropWhile is_ws s)"
    unfolding trim_def by (simp add: suffix_to_prefix)
  then have "subseq (trim s) (dropWhile is_ws s)"
    by (rule prefix_imp_subseq)
  then show ?thesis using subseq_dropWhile [of is_ws s] subseq_order.order_trans by blast
qed

lemma length_trim_le: "length (trim s) \<le> length s"
  using subseq_trim list_emb_length by blast


lemma ws_deleted_step:
  assumes "subseq X (trim (drop k r))"
      and "filter (\<lambda>c. \<not> is_ws c) X = filter (\<lambda>c. \<not> is_ws c) (trim (drop k r))"
  shows "subseq (take k r @ X) r \<and>
         filter (\<lambda>c. \<not> is_ws c) (take k r @ X) = filter (\<lambda>c. \<not> is_ws c) r"
proof
  have "subseq X (drop k r)"
    using assms(1) subseq_trim [of "drop k r"] subseq_order.order_trans by blast
  then have "subseq (take k r @ X) (take k r @ drop k r)"
    by (simp only: subseq_append')
  then show "subseq (take k r @ X) r" by simp
  have "filter (\<lambda>c. \<not> is_ws c) (take k r @ X) =
        filter (\<lambda>c. \<not> is_ws c) (take k r) @ filter (\<lambda>c. \<not> is_ws c) (drop k r)"
    using assms(2) by (simp add: filter_trim)
  also have "\<dots> = filter (\<lambda>c. \<not> is_ws c) (take k r @ drop k r)"
    by (simp only: filter_append)
  finally show "filter (\<lambda>c. \<not> is_ws c) (take k r @ X) = filter (\<lambda>c. \<not> is_ws c) r"
    by simp
qed

lemma slice1_prefix:
  assumes "1 \<le> maxSize" and "int (length remaining) > maxSize"
  defines "slice \<equiv> slice0 remaining maxSize"
  defines "lastPeriod \<equiv> lastIndexOf slice CHR ''.''"
  defines "slice1 \<equiv> (if lastPeriod \<noteq> - 1 \<and> lastPeriod > 2000
                       then slice0 slice (lastPeriod + 1) else slice)"
  shows "slice1 = take (length slice1) remaining \<and> 0 < length slice1 \<and>
         length slice1 \<le> length remaining"
proof -
  have s: "slice = take (nat maxSize) remaining"
    using assms(1) by (simp add: slice_def slice0_def)
  show ?thesis
  proof (cases "lastPeriod \<noteq> - 1 \<and> lastPeriod > 2000")
    case True
    then have "slice1 = take (nat (lastPeriod + 1)) (take (nat maxSize) remaining)"
      by (simp add: slice1_def slice0_def s)
    then have e: "slice1 = take (min (nat (lastPeriod + 1)) (nat maxSize)) remaining"
      by simp
    have "0 < min (nat (lastPeriod + 1)) (nat maxSize)"
      using True assms(1) by simp
    moreover have "min (nat (lastPeriod + 1)) (nat maxSize) \<le> length remaining"
      using assms(2) by simp
    ultimately show ?thesis unfolding e by simp
  next
    case False
    then have "slice1 = slice" unfolding slice1_def by (simp only: if_False)
    then have e: "slice1 = take (nat maxSize) remaining" by (simp add: s)
    show ?thesis unfolding e using assms(1,2) by simp
  qed
qed

lemma splitLoop_ws_deleted:
  assumes "1 \<le> maxSize"
  shows "\<exists>chunks X. splitLoop maxSize remaining parts = Some chunks \<and>
           concat chunks = concat parts @ X \<and> subseq X remaining \<and>
           filter (\<lambda>c. \<not> is_ws c) X = filter (\<lambda>c. \<not> is_ws c) remaining"
proof (induction "length remaining" arbitrary: remaining parts rule: less_induct)
  case less
  show ?case
  proof (cases "int (length remaining) > maxSize")
    case False
    then have "splitLoop maxSize remaining parts =
               Some (if length remaining > 0 then parts @ [remaining] else parts)"
      by (subst splitLoop.simps) simp
    then show ?thesis by auto
  next
    case True
    define slice where "slice = slice0 remaining maxSize"
    define lastPeriod where "lastPeriod = lastIndexOf slice CHR ''.''"
    define slice1 where "slice1 = (if lastPeriod \<noteq> - 1 \<and> lastPeriod > 2000
                       then slice0 slice (lastPeriod + 1) else slice)"
    have p: "slice1 = take (length slice1) remaining \<and> 0 < length slice1 \<and>
             length slice1 \<le> length remaining"
      unfolding slice1_def lastPeriod_def slice_def
      by (rule slice1_prefix [OF assms True])
    let ?rem = "trim (drop (length slice1) remaining)"
    have step: "splitLoop maxSize remaining parts = splitLoop maxSize ?rem (parts @ [slice1])"
      using True
      by (subst splitLoop.simps) (simp add: Let_def slice1_def lastPeriod_def slice_def)
    have "length ?rem \<le> length (drop (length slice1) remaining)"
      by (rule length_trim_le)
    moreover have "length (drop (length slice1) remaining) = length remaining - length slice1"
      by simp
    moreover have "0 < length slice1" "length slice1 \<le> length remaining"
      using p by blast+
    ultimately have "length ?rem < length remaining" by arith
    from less [OF this, of "parts @ [slice1]"]
    obtain chunks X where c: "splitLoop maxSize ?rem (parts @ [slice1]) = Some chunks"
      and cc: "concat chunks = concat (parts @ [slice1]) @ X"
      and sub: "subseq X ?rem"
      and fl: "filter (\<lambda>c. \<not> is_ws c) X = filter (\<lambda>c. \<not> is_ws c) ?rem"
      by blast
    have "subseq (take (length slice1) remaining @ X) remaining \<and>
          filter (\<lambda>c. \<not> is_ws c) (take (length slice1) remaining @ X) =
          filter (\<lambda>c. \<not> is_ws c) remaining"
      by (rule ws_deleted_step [OF sub fl])
    then have "subseq (slice1 @ X) remaining \<and>
          filter (\<lambda>c. \<not> is_ws c) (slice1 @ X) = filter (\<lambda>c. \<not> is_ws c) remaining"
      using p by simp
    moreover have "concat chunks = concat parts @ (slice1 @ X)" using cc by simp
    ultimately show ?thesis using c step by metis
  qed
qed

section \<open>Response chunker: the text is the chunks with whitespace between them\<close>

lemma trim_parts:
  "\<exists>lead trail. s = lead @ trim s @ trail \<and> list_all is_ws lead \<and> list_all is_ws trail"
proof -
  define t where "t = dropWhile is_ws s"
  have s: "s = takeWhile is_ws s @ t" by (simp add: t_def)
  have "rev (dropWhile is_ws (rev t)) @ rev (takeWhile is_ws (rev t)) =
        rev (takeWhile is_ws (rev t) @ dropWhile is_ws (rev t))"
    by (simp only: rev_append)
  also have "\<dots> = rev (rev t)" by (simp only: takeWhile_dropWhile_id)
  finally have "rev (dropWhile is_ws (rev t)) @ rev (takeWhile is_ws (rev t)) = t"
    by simp
  then have t: "t = trim s @ rev (takeWhile is_ws (rev t))"
    unfolding trim_def t_def by (rule sym)
  have "list_all is_ws (takeWhile is_ws s)"
    by (auto simp: list_all_iff dest: set_takeWhileD)
  moreover have "list_all is_ws (rev (takeWhile is_ws (rev t)))"
    by (auto simp: list_all_iff dest: set_takeWhileD)
  moreover have "s = takeWhile is_ws s @ trim s @ rev (takeWhile is_ws (rev t))"
    using s t by simp
  ultimately show ?thesis by blast
qed

lemma hd_trim: "trim s \<noteq> [] \<Longrightarrow> \<not> is_ws (hd (trim s))"
proof -
  assume ne: "trim s \<noteq> []"
  define t where "t = dropWhile is_ws s"
  have "suffix (dropWhile is_ws (rev t)) (rev t)" by (rule suffix_dropWhile)
  then have "prefix (trim s) t" by (simp add: trim_def t_def suffix_to_prefix)
  then obtain v where tv: "t = trim s @ v" by (auto simp: prefix_def)
  then have "t \<noteq> []" using ne by simp
  then have "\<not> is_ws (hd t)" unfolding t_def by (rule hd_dropWhile)
  then show ?thesis using tv ne by simp
qed

lemma last_trim: "trim s \<noteq> [] \<Longrightarrow> \<not> is_ws (last (trim s))"
proof -
  assume ne: "trim s \<noteq> []"
  then have d: "dropWhile is_ws (rev (dropWhile is_ws s)) \<noteq> []" by (simp add: trim_def)
  then have "\<not> is_ws (hd (dropWhile is_ws (rev (dropWhile is_ws s))))" by (rule hd_dropWhile)
  then show ?thesis using d by (simp add: trim_def last_rev)
qed

lemma trim_Nil_all_ws: "trim s = [] \<Longrightarrow> list_all is_ws s"
proof -
  assume e: "trim s = []"
  obtain lead trail where "s = lead @ trim s @ trail" "list_all is_ws lead" "list_all is_ws trail"
    using trim_parts by blast
  then have "s = lead @ trail \<and> list_all is_ws (lead @ trail)" using e by simp
  then show ?thesis by simp
qed

lemma weave_trail:
  "length gaps = length chunks \<Longrightarrow> chunks \<noteq> [] \<Longrightarrow> list_all (list_all is_ws) gaps \<Longrightarrow>
   list_all is_ws trail \<Longrightarrow>
   \<exists>gaps2. length gaps2 = length chunks \<and> list_all (list_all is_ws) gaps2 \<and>
            weave chunks gaps2 = weave chunks gaps @ trail"
proof (induction chunks gaps rule: weave.induct)
  case (1 gaps)
  then show ?case by simp
next
  case (2 c chunks)
  then show ?case by simp
next
  case (3 c chunks g gaps)
  show ?case
  proof (cases "chunks = []")
    case True
    then have "gaps = []" using "3.prems"(1) by simp
    have "length [g @ trail] = length (c # chunks) \<and> list_all (list_all is_ws) [g @ trail] \<and>
          weave (c # chunks) [g @ trail] = weave (c # chunks) (g # gaps) @ trail"
      using True \<open>gaps = []\<close> "3.prems"(3,4) by simp
    then show ?thesis by blast
  next
    case False
    from "3.IH" [OF _ False] "3.prems"
    obtain gaps2 where "length gaps2 = length chunks" "list_all (list_all is_ws) gaps2"
      "weave chunks gaps2 = weave chunks gaps @ trail"
      by auto
    then have "length (g # gaps2) = length (c # chunks) \<and>
          list_all (list_all is_ws) (g # gaps2) \<and>
          weave (c # chunks) (g # gaps2) = weave (c # chunks) (g # gaps) @ trail"
      using "3.prems"(3) by simp
    then show ?thesis by blast
  qed
qed

lemma weave_hd:
  "weave chunks gaps = r \<Longrightarrow> chunks \<noteq> [] \<Longrightarrow> hd chunks \<noteq> [] \<Longrightarrow> hd (hd chunks) = hd r"
  by (induction chunks gaps rule: weave.induct) auto

lemma weave_no_gaps:
  "length gaps = length chunks \<Longrightarrow> list_all (\<lambda>g. g = []) gaps \<Longrightarrow>
   weave chunks gaps = concat chunks"
  by (induction chunks gaps rule: weave.induct) auto

lemma lastIndexOf_nth:
  assumes "lastIndexOf s c \<noteq> - 1"
  shows "0 \<le> lastIndexOf s c \<and> nat (lastIndexOf s c) < length s \<and>
         s ! nat (lastIndexOf s c) = c"
proof -
  have m: "c \<in> set s" using assms by (auto simp: lastIndexOf_def split: if_splits)
  define k where "k = length (takeWhile (\<lambda>x. x \<noteq> c) (rev s))"
  have "dropWhile (\<lambda>x. x \<noteq> c) (rev s) \<noteq> []"
    using m by (simp add: dropWhile_eq_Nil_conv)
  then have "0 < length (dropWhile (\<lambda>x. x \<noteq> c) (rev s))" by simp
  moreover have "k + length (dropWhile (\<lambda>x. x \<noteq> c) (rev s)) = length (rev s)"
    unfolding k_def by (simp only: length_append [symmetric] takeWhile_dropWhile_id)
  ultimately have kl: "k < length (rev s)" by arith
  then have "\<not> (rev s ! k) \<noteq> c"
    unfolding k_def by (rule nth_length_takeWhile)
  then have r: "rev s ! k = c" by simp
  have kl': "k < length s" using kl by simp
  have i: "lastIndexOf s c = int (length s) - 1 - int k"
    using m by (simp add: lastIndexOf_def k_def)
  then have n: "nat (lastIndexOf s c) = length s - Suc k" using kl' by simp
  have "s ! (length s - Suc k) = rev s ! k" using kl' by (simp add: rev_nth)
  then show ?thesis using i n r kl' by simp
qed

lemma slice1_cut:
  assumes "1 \<le> maxSize" and "int (length remaining) > maxSize"
  defines "slice \<equiv> slice0 remaining maxSize"
  defines "lastPeriod \<equiv> lastIndexOf slice CHR ''.''"
  defines "slice1 \<equiv> (if lastPeriod \<noteq> - 1 \<and> lastPeriod > 2000
                       then slice0 slice (lastPeriod + 1) else slice)"
  shows "cut_slice maxSize slice1 \<and> int (length slice1) \<le> maxSize"
proof -
  have s: "slice = take (nat maxSize) remaining"
    using assms(1) by (simp add: slice_def slice0_def)
  have ls: "int (length slice) = maxSize" using s assms(1,2) by simp
  show ?thesis
  proof (cases "lastPeriod \<noteq> - 1 \<and> lastPeriod > 2000")
    case True
    from lastIndexOf_nth [of slice "CHR ''.''"] True
    have b: "nat lastPeriod < length slice" and c: "slice ! nat lastPeriod = CHR ''.''"
      by (simp_all add: lastPeriod_def)
    have e: "slice1 = take (Suc (nat lastPeriod)) slice"
      using True by (simp add: slice1_def slice0_def nat_add_distrib)
    have l: "length slice1 = Suc (nat lastPeriod)" unfolding e using b by simp
    have "last slice1 = slice ! nat lastPeriod"
      unfolding e using b by (simp add: take_Suc_conv_app_nth)
    moreover have "lastPeriod + 1 \<le> maxSize" using b ls True by linarith
    moreover have "2001 < Suc (nat lastPeriod)" using True by linarith
    moreover have "int (Suc (nat lastPeriod)) = lastPeriod + 1" using True by linarith
    ultimately show ?thesis using l c unfolding cut_slice_def by simp
  next
    case False
    then have "slice1 = slice" unfolding slice1_def by (simp only: if_False)
    then show ?thesis using ls by (simp add: cut_slice_def)
  qed
qed

lemma splitLoop_weave:
  assumes "1 \<le> maxSize"
  shows "\<exists>cs gaps. splitLoop maxSize remaining parts = Some (parts @ cs) \<and>
           length gaps = length cs \<and> weave cs gaps = remaining \<and>
           list_all (list_all is_ws) gaps \<and>
           (\<forall>c \<in> set cs. c \<noteq> [] \<and> int (length c) \<le> maxSize) \<and>
           (\<forall>c \<in> set (tl cs). \<not> is_ws (hd c)) \<and>
           (\<forall>c \<in> set (butlast cs). cut_slice maxSize c) \<and>
           (int (length remaining) > maxSize \<longrightarrow> cs \<noteq> [] \<and> cut_slice maxSize (hd cs)) \<and>
           (2 \<le> length cs \<longrightarrow> \<not> is_ws (last (last cs))) \<and>
           (remaining \<noteq> [] \<and> \<not> is_ws (last remaining) \<longrightarrow>
              cs \<noteq> [] \<and> \<not> is_ws (last (last cs))) \<and>
           (int (length remaining) \<le> maxSize \<longrightarrow>
              cs = (if remaining = [] then [] else [remaining]))"
proof (induction "length remaining" arbitrary: remaining parts rule: less_induct)
  case less
  show ?case
  proof (cases "int (length remaining) > maxSize")
    case False
    then have e: "splitLoop maxSize remaining parts =
               Some (parts @ (if remaining = [] then [] else [remaining]))"
      by (subst splitLoop.simps) simp
    show ?thesis
    proof (cases "remaining = []")
      case True
      then show ?thesis using e False by simp
    next
      case ne: False
      have "splitLoop maxSize remaining parts = Some (parts @ [remaining]) \<and>
            length [[]] = length [remaining] \<and> weave [remaining] [[]] = remaining \<and>
            list_all (list_all is_ws) [[]] \<and>
            (\<forall>c \<in> set [remaining]. c \<noteq> [] \<and> int (length c) \<le> maxSize) \<and>
            (\<forall>c \<in> set (tl [remaining]). \<not> is_ws (hd c)) \<and>
            (\<forall>c \<in> set (butlast [remaining]). cut_slice maxSize c) \<and>
            (int (length remaining) > maxSize \<longrightarrow>
               [remaining] \<noteq> [] \<and> cut_slice maxSize (hd [remaining])) \<and>
            (2 \<le> length [remaining] \<longrightarrow> \<not> is_ws (last (last [remaining]))) \<and>
            (remaining \<noteq> [] \<and> \<not> is_ws (last remaining) \<longrightarrow>
               [remaining] \<noteq> [] \<and> \<not> is_ws (last (last [remaining]))) \<and>
            (int (length remaining) \<le> maxSize \<longrightarrow>
               [remaining] = (if remaining = [] then [] else [remaining]))"
        using e ne False by simp
      then show ?thesis by blast
    qed
  next
    case True
    define slice where "slice = slice0 remaining maxSize"
    define lastPeriod where "lastPeriod = lastIndexOf slice CHR ''.''"
    define slice1 where "slice1 = (if lastPeriod \<noteq> - 1 \<and> lastPeriod > 2000
                       then slice0 slice (lastPeriod + 1) else slice)"
    have p: "slice1 = take (length slice1) remaining \<and> 0 < length slice1 \<and>
             length slice1 \<le> length remaining"
      unfolding slice1_def lastPeriod_def slice_def
      by (rule slice1_prefix [OF assms True])
    have cut: "cut_slice maxSize slice1 \<and> int (length slice1) \<le> maxSize"
      unfolding slice1_def lastPeriod_def slice_def
      by (rule slice1_cut [OF assms True])
    define rest where "rest = drop (length slice1) remaining"
    have rem: "remaining = slice1 @ rest"
      using p unfolding rest_def by (metis append_take_drop_id)
    have step: "splitLoop maxSize remaining parts = splitLoop maxSize (trim rest) (parts @ [slice1])"
      using True
      by (subst splitLoop.simps) (simp add: Let_def slice1_def lastPeriod_def slice_def rest_def)
    have "length (trim rest) \<le> length rest" by (rule length_trim_le)
    moreover have "length rest = length remaining - length slice1" by (simp add: rest_def)
    moreover have "0 < length slice1" "length slice1 \<le> length remaining" using p by blast+
    ultimately have "length (trim rest) < length remaining" by arith
    from less [OF this, of "parts @ [slice1]"]
    obtain cs gaps where r: "splitLoop maxSize (trim rest) (parts @ [slice1]) =
        Some ((parts @ [slice1]) @ cs)"
      and lg: "length gaps = length cs" and w: "weave cs gaps = trim rest"
      and ws: "list_all (list_all is_ws) gaps"
      and sz: "\<forall>c \<in> set cs. c \<noteq> [] \<and> int (length c) \<le> maxSize"
      and hd: "\<forall>c \<in> set (tl cs). \<not> is_ws (hd c)"
      and cs_cut: "\<forall>c \<in> set (butlast cs). cut_slice maxSize c"
      and cs_last: "trim rest \<noteq> [] \<and> \<not> is_ws (last (trim rest)) \<longrightarrow>
                      cs \<noteq> [] \<and> \<not> is_ws (last (last cs))"
      by blast
    have G: "trim rest \<noteq> [] \<longrightarrow> cs \<noteq> [] \<and> \<not> is_ws (last (last cs))"
      using cs_last last_trim by blast
    have F: "remaining \<noteq> [] \<and> \<not> is_ws (last remaining) \<longrightarrow> trim rest \<noteq> []"
    proof
      assume a: "remaining \<noteq> [] \<and> \<not> is_ws (last remaining)"
      have "length slice1 < length remaining" using cut True by linarith
      then have "rest \<noteq> []" and "last rest = last remaining"
        unfolding rest_def by (simp_all add: last_drop)
      then have "last rest \<in> set rest \<and> \<not> is_ws (last rest)"
        using a last_in_set [of rest] by metis
      then have "\<not> list_all is_ws rest" unfolding list_all_iff by blast
      then show "trim rest \<noteq> []" using trim_Nil_all_ws by blast
    qed
    obtain lead trail where lt: "rest = lead @ trim rest @ trail"
      and wl: "list_all is_ws lead" and wt: "list_all is_ws trail"
      using trim_parts by blast
    have res: "splitLoop maxSize remaining parts = Some (parts @ (slice1 # cs))"
      using step r by simp
    have s1: "slice1 \<noteq> []" using p by auto
    have big: "\<not> int (length remaining) \<le> maxSize" using True by simp
    show ?thesis
    proof (cases "cs = []")
      case True
      then have "trim rest = []" using w by simp
      then have "rest = lead @ trail" using lt by simp
      then have "length [lead @ trail] = length (slice1 # cs) \<and>
            weave (slice1 # cs) [lead @ trail] = remaining \<and>
            list_all (list_all is_ws) [lead @ trail]"
        using True rem wl wt by simp
      moreover have "(\<forall>c \<in> set (slice1 # cs). c \<noteq> [] \<and> int (length c) \<le> maxSize) \<and>
            (\<forall>c \<in> set (tl (slice1 # cs)). \<not> is_ws (hd c)) \<and>
            (\<forall>c \<in> set (butlast (slice1 # cs)). cut_slice maxSize c)"
        using True s1 cut by simp
      moreover have "slice1 # cs \<noteq> [] \<and> cut_slice maxSize (hd (slice1 # cs))"
        using cut by simp
      moreover have "\<not> 2 \<le> length (slice1 # cs)" using True by simp
      moreover have "\<not> (remaining \<noteq> [] \<and> \<not> is_ws (last remaining))"
        using F G True by blast
      ultimately show ?thesis using res big by blast
    next
      case ne: False
      from weave_trail [OF lg ne ws wt]
      obtain gaps2 where l2: "length gaps2 = length cs"
        and w2: "list_all (list_all is_ws) gaps2"
        and e2: "weave cs gaps2 = weave cs gaps @ trail"
        by blast
      have "weave (slice1 # cs) (lead # gaps2) = slice1 @ lead @ trim rest @ trail"
        using e2 w by simp
      then have wv: "weave (slice1 # cs) (lead # gaps2) = remaining"
        using rem lt by simp
      have hc: "hd cs \<noteq> []" using sz ne by (cases cs) auto
      have "hd (hd cs) = hd (trim rest)" using weave_hd [OF w ne hc] .
      moreover have "trim rest \<noteq> []" using w ne hc by (cases cs; cases gaps) auto
      ultimately have "\<not> is_ws (hd (hd cs))" using hd_trim by simp
      then have h2: "\<forall>c \<in> set (tl (slice1 # cs)). \<not> is_ws (hd c)"
        using hd ne by (cases cs) auto
      have b2: "\<forall>c \<in> set (butlast (slice1 # cs)). cut_slice maxSize c"
        using cs_cut cut ne by simp
      have z2: "\<forall>c \<in> set (slice1 # cs). c \<noteq> [] \<and> int (length c) \<le> maxSize"
        using sz s1 cut by simp
      have c2: "slice1 # cs \<noteq> [] \<and> cut_slice maxSize (hd (slice1 # cs))"
        using cut by simp
      have "\<not> is_ws (last (last cs))" using G \<open>trim rest \<noteq> []\<close> by blast
      then have e3: "\<not> is_ws (last (last (slice1 # cs)))" using ne by simp
      have "length (lead # gaps2) = length (slice1 # cs) \<and>
            list_all (list_all is_ws) (lead # gaps2)"
        using l2 w2 wl by simp
      then show ?thesis using res wv h2 b2 z2 big c2 e3 by blast
    qed
  qed
qed

text \<open>
  C1, as amended. For every \<open>maxSize \<ge> 1\<close> and every text the split returns. A text
  of at most \<open>maxSize\<close> characters comes back as its single chunk, untouched. In general
  the text is the chunks in order with a run of whitespace after each: the whitespace
  that \<open>trim\<close> took off the remainder at a cut (its leading whitespace, and the
  trailing whitespace of the text), and nothing else is lost. Every chunk is non-empty
  and at most \<open>maxSize\<close> long; every chunk after the first starts with a character that
  is not whitespace, and when there are two chunks or more the last one ends with one;
  every chunk before the last, and the first chunk of a text longer than \<open>maxSize\<close>, is
  what one pass cuts off (\<open>maxSize\<close> characters, or up to the period). So the
  concatenation of the chunks is the text with whitespace deleted and nothing else
  changed, and a text without whitespace is reproduced exactly.
\<close>

theorem splitIntoSlackChunks_loses_whitespace_at_cuts:
  assumes "1 \<le> maxSize"
  shows "\<exists>chunks gaps. splitIntoSlackChunks text maxSize = Some chunks \<and>
           length gaps = length chunks \<and> weave chunks gaps = text \<and>
           list_all (list_all is_ws) gaps \<and>
           (int (length text) \<le> maxSize \<longrightarrow>
              chunks = (if text = [] then [] else [text]) \<and> concat chunks = text) \<and>
           (\<forall>c \<in> set chunks. c \<noteq> [] \<and> int (length c) \<le> maxSize) \<and>
           (\<forall>c \<in> set (tl chunks). \<not> is_ws (hd c)) \<and>
           (\<forall>c \<in> set (butlast chunks). cut_slice maxSize c) \<and>
           (int (length text) > maxSize \<longrightarrow> chunks \<noteq> [] \<and> cut_slice maxSize (hd chunks)) \<and>
           (2 \<le> length chunks \<longrightarrow> \<not> is_ws (last (last chunks))) \<and>
           subseq (concat chunks) text \<and>
           filter (\<lambda>c. \<not> is_ws c) (concat chunks) = filter (\<lambda>c. \<not> is_ws c) text \<and>
           ((\<forall>c \<in> set text. \<not> is_ws c) \<longrightarrow> concat chunks = text)"
proof -
  from splitLoop_weave [OF assms, of "text" "[]"]
  obtain chunks gaps where c: "splitIntoSlackChunks text maxSize = Some chunks"
    and a: "length gaps = length chunks" "weave chunks gaps = text"
       "list_all (list_all is_ws) gaps"
       "\<forall>c \<in> set chunks. c \<noteq> [] \<and> int (length c) \<le> maxSize"
       "\<forall>c \<in> set (tl chunks). \<not> is_ws (hd c)"
       "\<forall>c \<in> set (butlast chunks). cut_slice maxSize c"
       "int (length text) > maxSize \<longrightarrow> chunks \<noteq> [] \<and> cut_slice maxSize (hd chunks)"
       "2 \<le> length chunks \<longrightarrow> \<not> is_ws (last (last chunks))"
    and f: "int (length text) \<le> maxSize \<longrightarrow> chunks = (if text = [] then [] else [text])"
    unfolding splitIntoSlackChunks_def by auto
  obtain X where x: "concat chunks = X" and sub: "subseq X text"
    and fl: "filter (\<lambda>c. \<not> is_ws c) X = filter (\<lambda>c. \<not> is_ws c) text"
    using splitLoop_ws_deleted [OF assms, of "text" "[]"] c
    unfolding splitIntoSlackChunks_def by auto
  have "concat chunks = text" if "\<forall>c \<in> set text. \<not> is_ws c"
  proof -
    have "filter (\<lambda>c. \<not> is_ws c) text = text" using that by simp
    then have "length text \<le> length X"
      using fl by (metis length_filter_le)
    then have "length X = length text"
      using sub list_emb_length [of "(=)" X "text"] by simp
    then show ?thesis using sub x subseq_same_length by blast
  qed
  moreover have "int (length text) \<le> maxSize \<longrightarrow>
      chunks = (if text = [] then [] else [text]) \<and> concat chunks = text"
    using f by auto
  ultimately show ?thesis using c a sub fl x by blast
qed

theorem splitIntoSlackChunks_loses_whitespace_at_cuts_witness:
  "(1::int) \<le> 2 \<and> splitIntoSlackChunks ''ab  c'' 2 = Some [''ab'', ''c''] \<and>
   weave [''ab'', ''c''] [''  '', ''''] = ''ab  c'' \<and>
   (\<exists>gaps. length gaps = length [''ab'', ''c''] \<and> weave [''ab'', ''c''] gaps = ''ab  c'' \<and>
           list_all (list_all is_ws) gaps) \<and>
   splitIntoSlackChunks ''a c'' 3 = Some [''a c''] \<and>
   list_all (\<lambda>c. \<not> is_ws c) ''abcde'' \<and>
   (\<exists>chunks. splitIntoSlackChunks ''abcde'' 2 = Some chunks \<and> concat chunks = ''abcde'')"
proof -
  have h: "(1::int) \<le> 2" by simp
  have h3: "(1::int) \<le> 3" by simp
  have e: "splitIntoSlackChunks ''ab  c'' 2 = Some [''ab'', ''c'']"
    by (simp add: splitIntoSlackChunks_def splitLoop.simps slice0_def lastIndexOf_def trim_def
          is_ws_def)
  have n: "\<forall>c \<in> set ''abcde''. \<not> is_ws c" by (simp add: is_ws_def)
  from splitIntoSlackChunks_loses_whitespace_at_cuts [OF h, of "''ab  c''"] e
  have 1: "\<exists>gaps. length gaps = length [''ab'', ''c''] \<and> weave [''ab'', ''c''] gaps = ''ab  c'' \<and>
           list_all (list_all is_ws) gaps"
    by auto
  from splitIntoSlackChunks_loses_whitespace_at_cuts [OF h3, of "''a c''"]
  have 2: "splitIntoSlackChunks ''a c'' 3 = Some [''a c'']" by auto
  from splitIntoSlackChunks_loses_whitespace_at_cuts [OF h, of "''abcde''"] n
  have 3: "\<exists>chunks. splitIntoSlackChunks ''abcde'' 2 = Some chunks \<and> concat chunks = ''abcde''"
    by blast
  show ?thesis using h e 1 2 3 n unfolding list_all_iff by simp
qed

text \<open>
  C1, as stated, fails: the remainder after each cut is trimmed, so whitespace next to a
  chunk boundary is lost. With \<open>maxSize = 2\<close> the text \<open>''ab c''\<close> is cut after
  \<open>''ab''\<close>, the remainder \<open>'' c''\<close> is trimmed to \<open>''c''\<close>, and the chunks
  concatenate to \<open>''abc''\<close>.
\<close>

theorem splitIntoSlackChunks_roundtrip_counterexample:
  "splitIntoSlackChunks ''ab c'' 2 = Some [''ab'', ''c''] \<and> concat [''ab'', ''c''] \<noteq> ''ab c''"
  by (simp add: splitIntoSlackChunks_def splitLoop.simps slice0_def lastIndexOf_def trim_def is_ws_def)

text \<open>
  The same loss at the size the Slack controller uses: 2800 letters, a space and one
  more letter.
\<close>

lemma splitIntoSlackChunks_2800:
  "splitIntoSlackChunks (replicate 2800 CHR ''a'' @ '' b'') 2800 =
     Some [replicate 2800 CHR ''a'', ''b'']"
  by (simp add: splitIntoSlackChunks_def splitLoop.simps slice0_def lastIndexOf_def trim_def is_ws_def)

section \<open>The batching loop keeps every batch within the budget\<close>

lemma extractBatch_second:
  "snd (extractBatch extract (calls @ [(batch, 1)]) batch 2) = calls @ [(batch, 1), (batch, 2)]"
  by (subst extractBatch.simps) (simp split: option.splits)

lemma extractBatch_calls:
  "snd (extractBatch extract calls batch 1) = calls @ [(batch, 1)] \<or>
   snd (extractBatch extract calls batch 1) = calls @ [(batch, 1), (batch, 2)]"
proof (cases "extract (length calls) batch")
  case (Some parsed)
  have "extractBatch extract calls batch 1 = (parsed, calls @ [(batch, 1)])"
    by (subst extractBatch.simps) (simp add: Some)
  then show ?thesis by simp
next
  case None
  have "extractBatch extract calls batch 1 =
        extractBatch extract (calls @ [(batch, 1)]) batch 2"
    by (subst extractBatch.simps) (simp add: None del: One_nat_def)
  then show ?thesis using extractBatch_second [of "extract" calls batch] by simp
qed

lemma flushBatch_calls:
  "bs_calls (flushBatch extract st) = bs_calls st @ [(bs_batch st, 1)] \<or>
   bs_calls (flushBatch extract st) = bs_calls st @ [(bs_batch st, 1), (bs_batch st, 2)]"
proof -
  obtain r c where e: "extractBatch extract (bs_calls st) (bs_batch st) 1 = (r, c)"
    by (cases "extractBatch extract (bs_calls st) (bs_batch st) 1")
  then have "bs_calls (flushBatch extract st) = c" by (simp add: flushBatch_def)
  moreover have "c = snd (extractBatch extract (bs_calls st) (bs_batch st) 1)"
    using e by simp
  ultimately show ?thesis
    using extractBatch_calls [of "extract" "bs_calls st" "bs_batch st"] by simp
qed

lemma flushBatch_fields:
  "bs_batch (flushBatch extract st) = bs_batch st" "bs_size (flushBatch extract st) = bs_size st"
proof -
  obtain r c where e: "extractBatch extract (bs_calls st) (bs_batch st) 1 = (r, c)"
    by (cases "extractBatch extract (bs_calls st) (bs_batch st) 1")
  show "bs_batch (flushBatch extract st) = bs_batch st" using e by (simp add: flushBatch_def)
  show "bs_size (flushBatch extract st) = bs_size st" using e by (simp add: flushBatch_def)
qed

lemma flushBatch_inv:
  assumes "batch_inv units st"
  shows "list_all call_ok (bs_calls (flushBatch extract st)) \<and>
         fst ` set (bs_calls (flushBatch extract st)) \<subseteq>
           set (flushed (bs_calls (flushBatch extract st))) \<and>
         concat (flushed (bs_calls (flushBatch extract st))) = units"
proof -
  have ok: "call_ok (bs_batch st, n)" for n
    using assms by (simp add: batch_inv_def call_ok_def)
  have l: "list_all call_ok (bs_calls st)"
    and c: "concat (flushed (bs_calls st)) @ bs_batch st = units"
    using assms by (simp_all add: batch_inv_def)
  have f: "fst ` set (bs_calls st) \<subseteq> set (flushed (bs_calls st))"
    using assms by (simp add: batch_inv_def)
  from flushBatch_calls [of "extract" st] show ?thesis
  proof
    assume a: "bs_calls (flushBatch extract st) = bs_calls st @ [(bs_batch st, 1)]"
    show ?thesis unfolding a using l c ok f by (auto simp: flushed_def)
  next
    assume a: "bs_calls (flushBatch extract st) =
               bs_calls st @ [(bs_batch st, 1), (bs_batch st, 2)]"
    show ?thesis unfolding a using l c ok f by (auto simp: flushed_def)
  qed
qed

lemma insertSub_inv:
  assumes "batch_inv units st" and "length (doc_text sub) \<le> MAX_CHARS_PER_BATCH"
  shows "batch_inv (units @ [sub]) (insertSub extract sub st)"
proof (cases "bs_size st + length (doc_text sub) > MAX_CHARS_PER_BATCH")
  case True
  then have "insertSub extract sub st =
     (flushBatch extract st)\<lparr>bs_batch := [sub], bs_size := length (doc_text sub)\<rparr>"
    by (simp add: insertSub_def Let_def)
  then show ?thesis using flushBatch_inv [OF assms(1), of "extract"] assms(2)
    by (simp add: batch_inv_def batch_chars_def)
next
  case False
  then have "insertSub extract sub st =
     st\<lparr>bs_batch := bs_batch st @ [sub], bs_size := bs_size st + length (doc_text sub)\<rparr>"
    by (simp add: insertSub_def Let_def)
  then show ?thesis using assms(1) False
    by (simp add: batch_inv_def batch_chars_def)
qed

lemma fold_insertSub_inv:
  assumes "\<forall>sub \<in> set subs. length (doc_text sub) \<le> MAX_CHARS_PER_BATCH"
  shows "batch_inv units st \<Longrightarrow> batch_inv (units @ subs) (fold (insertSub extract) subs st)"
  using assms
proof (induction subs arbitrary: units st)
  case Nil
  then show ?case by simp
next
  case (Cons sub subs)
  have "batch_inv (units @ [sub]) (insertSub extract sub st)"
    using Cons.prems by (simp add: insertSub_inv)
  from Cons.IH [OF this] Cons.prems(2) show ?case by simp
qed

lemma splitFrom_bounded:
  "sub \<in> set (splitFrom doc start index) \<Longrightarrow> length (doc_text sub) \<le> MAX_CHARS_PER_BATCH"
proof (induction doc start index rule: splitFrom.induct)
  case (1 doc start index)
  show ?case
  proof (cases "start < length (doc_text doc)")
    case True
    then have "sub = \<lparr>doc_name = doc_name doc @ ''#'' @ dec index,
            doc_text = take MAX_CHARS_PER_BATCH (drop start (doc_text doc))\<rparr> \<or>
        sub \<in> set (splitFrom doc (start + MAX_CHARS_PER_BATCH) (index + 1))"
      using "1.prems" by (subst (asm) splitFrom.simps) simp
    then show ?thesis using "1.IH" [OF True] by auto
  next
    case False
    then show ?thesis using "1.prems" by (subst (asm) splitFrom.simps) simp
  qed
qed

lemma docsToInsert_bounded:
  "sub \<in> set (docsToInsert doc) \<Longrightarrow> length (doc_text sub) \<le> MAX_CHARS_PER_BATCH"
  by (auto simp: docsToInsert_def splitDocIntoChunks_def splitFrom_bounded split: if_splits)

lemma fold_insertDoc_inv:
  "batch_inv units st \<Longrightarrow>
   batch_inv (units @ concat (map docsToInsert docs)) (fold (insertDoc extract) docs st)"
proof (induction docs arbitrary: units st)
  case Nil
  then show ?case by simp
next
  case (Cons doc docs)
  have "\<forall>sub \<in> set (docsToInsert doc). length (doc_text sub) \<le> MAX_CHARS_PER_BATCH"
    using docsToInsert_bounded by blast
  from fold_insertSub_inv [OF this Cons.prems, of "extract"]
  have "batch_inv (units @ docsToInsert doc) (insertDoc extract doc st)"
    unfolding insertDoc_def .
  from Cons.IH [OF this] show ?case by simp
qed

lemma runBatches_calls:
  "list_all call_ok (bs_calls (runBatches extract wikiDocs)) \<and>
   fst ` set (bs_calls (runBatches extract wikiDocs)) \<subseteq>
     set (flushed (bs_calls (runBatches extract wikiDocs))) \<and>
   concat (flushed (bs_calls (runBatches extract wikiDocs))) = concat (map docsToInsert wikiDocs)"
proof -
  let ?init = "\<lparr>bs_results = [], bs_batch = [], bs_size = 0, bs_calls = []\<rparr>"
  let ?st = "fold (insertDoc extract) wikiDocs ?init"
  have "batch_inv [] ?init" by (simp add: batch_inv_def batch_chars_def flushed_def)
  from fold_insertDoc_inv [OF this, of wikiDocs "extract"]
  have inv: "batch_inv (concat (map docsToInsert wikiDocs)) ?st" by simp
  show ?thesis
  proof (cases "length (bs_batch ?st) > 0")
    case True
    then have "runBatches extract wikiDocs = flushBatch extract ?st"
      by (simp add: runBatches_def Let_def)
    then show ?thesis using flushBatch_inv [OF inv, of "extract"] by simp
  next
    case False
    then have r: "runBatches extract wikiDocs = ?st"
      by (simp add: runBatches_def Let_def)
    have e: "bs_batch ?st = []" using False by simp
    have "list_all call_ok (bs_calls ?st)"
      and "fst ` set (bs_calls ?st) \<subseteq> set (flushed (bs_calls ?st))"
      and "concat (flushed (bs_calls ?st)) @ bs_batch ?st = concat (map docsToInsert wikiDocs)"
      using inv unfolding batch_inv_def by blast+
    then show ?thesis unfolding r e by simp
  qed
qed

section \<open>Facts about trimming and lowercasing\<close>

lemma dropWhile_hd_id: "xs \<noteq> [] \<Longrightarrow> \<not> P (hd xs) \<Longrightarrow> dropWhile P xs = xs"
  by (cases xs) simp_all

lemma trim_idem: "trim (trim s) = trim s"
proof -
  define t where "t = dropWhile is_ws s"
  define u where "u = rev (dropWhile is_ws (rev t))"
  have u: "trim s = u" by (simp add: trim_def t_def u_def)
  have d: "dropWhile is_ws u = u"
  proof (cases "u = []")
    case True
    then show ?thesis by simp
  next
    case False
    have "suffix (dropWhile is_ws (rev t)) (rev t)" by (rule suffix_dropWhile)
    then have "prefix u t" by (simp add: u_def suffix_to_prefix)
    then obtain v where tv: "t = u @ v" by (auto simp: prefix_def)
    then have "t \<noteq> []" using False by simp
    then have "\<not> is_ws (hd t)" unfolding t_def by (rule hd_dropWhile)
    then have "\<not> is_ws (hd u)" using tv False by simp
    then show ?thesis using False by (simp add: dropWhile_hd_id)
  qed
  have "trim u = rev (dropWhile is_ws (rev u))" by (simp add: trim_def d)
  also have "\<dots> = rev (dropWhile is_ws (dropWhile is_ws (rev t)))" by (simp add: u_def)
  also have "\<dots> = u" by (simp add: u_def)
  finally show ?thesis by (simp add: u)
qed

lemma dropWhile_is_ws_toLowerCase:
  "dropWhile is_ws (toLowerCase s) = toLowerCase (dropWhile is_ws s)"
  by (induction s) (simp_all add: toLowerCase_def is_ws_toLowerChar)

lemma trim_toLowerCase: "trim (toLowerCase s) = toLowerCase (trim s)"
proof -
  have r: "rev (toLowerCase x) = toLowerCase (rev x)" for x
    by (simp add: toLowerCase_def rev_map)
  show ?thesis
    by (simp add: trim_def dropWhile_is_ws_toLowerCase r)
qed

lemma normalised:
  "toLowerCase (toLowerCase (trim s)) = toLowerCase (trim s)"
  "trim (toLowerCase (trim s)) = toLowerCase (trim s)"
  by (simp_all add: toLowerCase_idem trim_toLowerCase trim_idem)

section \<open>The merge step keeps the index well formed\<close>

lemma map_get_add_keys: "map fst (map_get_add k s m) = map fst m"
  by (induction m) auto

lemma entry_ok_add:
  "entry_ok (k, v) \<Longrightarrow> syn_ok k s \<Longrightarrow> entry_ok (k, set_add s v)"
  by (auto simp: entry_ok_def set_add_def)

lemma map_get_add_ok:
  "list_all entry_ok m \<Longrightarrow> syn_ok k s \<Longrightarrow> list_all entry_ok (map_get_add k s m)"
  by (induction m) (auto simp: entry_ok_add)

lemma map_get_add_inv: "map_inv m \<Longrightarrow> syn_ok k s \<Longrightarrow> map_inv (map_get_add k s m)"
  by (simp add: map_inv_def map_get_add_keys map_get_add_ok)

lemma fold_map_get_add_inv:
  "map_inv m \<Longrightarrow> list_all (syn_ok k) ss \<Longrightarrow> map_inv (fold (map_get_add k) ss m)"
  by (induction ss arbitrary: m) (auto simp: map_get_add_inv)

lemma filtered_syn_ok:
  "list_all (syn_ok k)
     (filter (\<lambda>s. length s > 0 \<and> s \<noteq> k) (map (\<lambda>s. toLowerCase (trim s)) ss))"
  by (auto simp: list_all_iff syn_ok_def normalised)

lemma mergeEntry_inv: "map_inv m \<Longrightarrow> map_inv (mergeEntry e m)"
proof (induction e m rule: mergeEntry.induct)
  case (3 t syns m)
  let ?k = "toLowerCase (trim t)"
  let ?m1 = "if \<not> map_has m ?k then m @ [(?k, [])] else m"
  show ?case
  proof (cases "t = [] \<or> ?k = []")
    case True
    then show ?thesis using 3 by auto
  next
    case False
    have m1: "map_inv ?m1"
      using 3 False by (auto simp: map_inv_def map_has_def entry_ok_def normalised)
    show ?thesis
    proof (cases syns)
      case None
      then show ?thesis using False m1 by (simp add: Let_def)
    next
      case (Some ss)
      have "map_inv (fold (map_get_add ?k)
              (filter (\<lambda>s. length s > 0 \<and> s \<noteq> ?k) (map (\<lambda>s. toLowerCase (trim s)) ss)) ?m1)"
        using m1 filtered_syn_ok by (rule fold_map_get_add_inv)
      then show ?thesis using False Some by (simp add: Let_def)
    qed
  qed
qed simp_all

lemma fold_mergeEntry_inv: "map_inv m \<Longrightarrow> map_inv (fold mergeEntry results m)"
  by (induction results arbitrary: m) (auto simp: mergeEntry_inv)

lemma map_inv_filter: "map_inv m \<Longrightarrow> map_inv (filter P m)"
  by (auto simp: map_inv_def distinct_map_filter list_all_iff)

lemma mergeStep_inv:
  "map_inv (mergeStep results) \<and> list_all (\<lambda>e. snd e \<noteq> []) (mergeStep results)"
proof -
  have "map_inv (fold mergeEntry results [])"
    by (rule fold_mergeEntry_inv) (simp add: map_inv_def)
  then show ?thesis
    by (auto simp: mergeStep_def map_inv_filter list_all_iff)
qed

section \<open>Merging a well-formed index again changes nothing\<close>

lemma map_get_add_last:
  "k \<notin> set (map fst acc) \<Longrightarrow>
   map_get_add k s (acc @ [(k, xs)]) = acc @ [(k, set_add s xs)]"
  by (induction acc) auto

lemma fold_map_get_add_last:
  "k \<notin> set (map fst acc) \<Longrightarrow> distinct (xs @ ss) \<Longrightarrow>
   fold (map_get_add k) ss (acc @ [(k, xs)]) = acc @ [(k, xs @ ss)]"
proof (induction ss arbitrary: xs)
  case Nil
  then show ?case by simp
next
  case (Cons s ss)
  have "set_add s xs = xs @ [s]" using Cons.prems(2) by (simp add: set_add_def)
  then have "fold (map_get_add k) (s # ss) (acc @ [(k, xs)]) =
             fold (map_get_add k) ss (acc @ [(k, xs @ [s])])"
    using Cons.prems(1) by (simp add: map_get_add_last)
  also have "\<dots> = acc @ [(k, (xs @ [s]) @ ss)]"
    using Cons.prems by (intro Cons.IH) auto
  finally show ?case by simp
qed

lemma mergeEntry_as_raw:
  assumes "entry_ok e" and "fst e \<notin> set (map fst acc)"
  shows "mergeEntry (as_raw e) acc = acc @ [e]"
proof -
  obtain t ss where e: "e = (t, ss)" by (cases e)
  have t: "toLowerCase (trim t) = t" "t \<noteq> []"
    using assms(1) by (simp_all add: e entry_ok_def)
  have "map (\<lambda>s. toLowerCase (trim s)) ss = ss"
    using assms(1) by (auto simp: e entry_ok_def syn_ok_def list_all_iff intro: map_idI)
  moreover have "filter (\<lambda>s. length s > 0 \<and> s \<noteq> t) ss = ss"
    using assms(1) by (auto simp: e entry_ok_def syn_ok_def list_all_iff filter_id_conv)
  moreover have "fold (map_get_add t) ss (acc @ [(t, [])]) = acc @ [(t, [] @ ss)]"
    using assms by (intro fold_map_get_add_last) (simp_all add: e entry_ok_def)
  ultimately show ?thesis
    using t assms(2) by (simp add: e as_raw_def map_has_def Let_def)
qed

lemma fold_mergeEntry_as_raw:
  "list_all entry_ok out \<Longrightarrow> distinct (map fst (acc @ out)) \<Longrightarrow>
   fold mergeEntry (map as_raw out) acc = acc @ out"
proof (induction out arbitrary: acc)
  case Nil
  then show ?case by simp
next
  case (Cons e out)
  have "mergeEntry (as_raw e) acc = acc @ [e]"
    using Cons.prems by (intro mergeEntry_as_raw) auto
  then have "fold mergeEntry (map as_raw (e # out)) acc =
             fold mergeEntry (map as_raw out) (acc @ [e])"
    by simp
  also have "\<dots> = (acc @ [e]) @ out"
    using Cons.prems by (intro Cons.IH) auto
  finally show ?case by simp
qed

lemma mergeStep_fixed:
  assumes "map_inv out" and "list_all (\<lambda>e. snd e \<noteq> []) out"
  shows "mergeStep (map as_raw out) = out"
proof -
  have "fold mergeEntry (map as_raw out) [] = [] @ out"
    using assms(1) by (intro fold_mergeEntry_as_raw) (simp_all add: map_inv_def)
  moreover have "filter (\<lambda>(term, syns). length syns > 0) out = out"
    using assms(2) by (auto simp: filter_id_conv list_all_iff)
  ultimately show ?thesis by (simp add: mergeStep_def)
qed

text \<open>
  C4. For every list of raw batch-extraction entries, applying the merge step to its
  own output (each entry read again as a raw entry) yields the same index as applying
  it once.
\<close>

theorem mergeStep_idempotent:
  "mergeStep (map as_raw (mergeStep results)) = mergeStep results"
  using mergeStep_inv [of results] by (simp add: mergeStep_fixed)

section \<open>Synonym generation: batches and the persisted index\<close>

lemma generateSynonyms_cases:
  "(wiki_files w = None \<and>
      generateSynonyms env w = (w\<lparr>synonyms_json := None\<rparr>, None, [])) \<or>
   (\<exists>files. wiki_files w = Some files \<and>
      generateSynonyms env w =
        (w\<lparr>synonyms_json :=
              Some (mergeStep (bs_results (runBatches (env_extract env) (loadWikiDocs env files))))\<rparr>,
         Some (mergeStep (bs_results (runBatches (env_extract env) (loadWikiDocs env files)))),
         bs_calls (runBatches (env_extract env) (loadWikiDocs env files))))"
  by (cases "wiki_files w") (simp_all add: generateSynonyms_def Let_def)

text \<open>
  C3. In \<open>generateSynonyms\<close> every batch submitted to an extraction call (first attempt
  or retry) has accumulated unit text of at most \<open>MAX_CHARS_PER_BATCH\<close> characters, or
  is a single unit that alone exceeds it; and no batch splits a unit: every call
  carries one of the batches of the first attempts, and these batches, one after the
  other, are exactly the sequence of units (whole pages, and the chunks of oversized
  pages).
\<close>

theorem generateSynonyms_batch_bound:
  "(\<forall>c \<in> set (synonymsCalls env w).
      batch_chars (fst c) \<le> MAX_CHARS_PER_BATCH \<or>
      (\<exists>u. fst c = [u] \<and> length (doc_text u) > MAX_CHARS_PER_BATCH)) \<and>
   (\<forall>c \<in> set (synonymsCalls env w). fst c \<in> set (flushed (synonymsCalls env w))) \<and>
   (\<forall>files. wiki_files w = Some files \<longrightarrow>
      concat (flushed (synonymsCalls env w)) =
        concat (map docsToInsert (loadWikiDocs env files)))"
proof -
  from generateSynonyms_cases [of w env] show ?thesis
  proof
    assume "wiki_files w = None \<and>
      generateSynonyms env w = (w\<lparr>synonyms_json := None\<rparr>, None, [])"
    then show ?thesis by (simp add: synonymsCalls_def)
  next
    assume "\<exists>files. wiki_files w = Some files \<and>
      generateSynonyms env w =
        (w\<lparr>synonyms_json :=
              Some (mergeStep (bs_results (runBatches (env_extract env) (loadWikiDocs env files))))\<rparr>,
         Some (mergeStep (bs_results (runBatches (env_extract env) (loadWikiDocs env files)))),
         bs_calls (runBatches (env_extract env) (loadWikiDocs env files)))"
    then obtain files where f: "wiki_files w = Some files"
      and c: "synonymsCalls env w = bs_calls (runBatches (env_extract env) (loadWikiDocs env files))"
      by (auto simp: synonymsCalls_def)
    from runBatches_calls [of "env_extract env" "loadWikiDocs env files"]
    show ?thesis unfolding c using f
      by (auto simp: list_all_iff call_ok_def)
  qed
qed

text \<open>
  The scenario of a page of 50000 characters followed by a short one: three chunks, and
  three batches.
\<close>

lemma demo_big_chunks:
  "splitDocIntoChunks \<lparr>doc_name = ''big.json'', doc_text = replicate 50000 CHR ''a''\<rparr> =
     [\<lparr>doc_name = ''big.json#1'', doc_text = replicate 20000 CHR ''a''\<rparr>,
      \<lparr>doc_name = ''big.json#2'', doc_text = replicate 20000 CHR ''a''\<rparr>,
      \<lparr>doc_name = ''big.json#3'', doc_text = replicate 10000 CHR ''a''\<rparr>]"
proof -
  have d: "dec (Suc 0) = ''1''" "dec (Suc (Suc 0)) = ''2''" "dec (Suc (Suc (Suc 0))) = ''3''"
    by code_simp+
  show ?thesis
    unfolding splitDocIntoChunks_def
    apply (subst splitFrom.simps, simp add: MAX_CHARS_PER_BATCH_def d)
    apply (subst splitFrom.simps, simp add: MAX_CHARS_PER_BATCH_def d)
    apply (subst splitFrom.simps, simp add: MAX_CHARS_PER_BATCH_def d)
    apply (subst splitFrom.simps, simp add: MAX_CHARS_PER_BATCH_def d)
    done
qed

lemma demo_big_docs:
  "loadWikiDocs demo_env
     [(''big.json'',
              Some \<lparr>wj_title = ''/Big'', wj_source = ''https://wiki/Big'',
                    wj_content = replicate 50000 CHR ''a''\<rparr>),
             (''vpn.json'',
              Some \<lparr>wj_title = ''/VPN'', wj_source = ''https://wiki/VPN'',
                    wj_content = ''Connect to the VPN before you open the wiki.''\<rparr>)] =
     [\<lparr>doc_name = ''big.json'', doc_text = replicate 50000 CHR ''a''\<rparr>,
      \<lparr>doc_name = ''vpn.json'', doc_text = ''Connect to the VPN before you open the wiki.''\<rparr>]"
proof -
  have j: "is_json ''big.json''" "is_json ''vpn.json''" by code_simp+
  show ?thesis by (simp add: loadWikiDocs_def j demo_env_def)
qed

lemma demo_big_calls:
  "map (\<lambda>c. (map doc_name (fst c), batch_chars (fst c), snd c)) (synonymsCalls demo_env demo_big) =
     [([''big.json#1''], 20000, 1), ([''big.json#2''], 20000, 1),
      ([''big.json#3'', ''vpn.json''], 10044, 1)]"
proof -
  have e: "env_extract demo_env n b = Some [Entry (Some ''VPN'') (Some [''Virtual Private Network''])]" for n b
    by (simp add: demo_env_def)
  show ?thesis
    by (simp add: synonymsCalls_def generateSynonyms_def demo_big_def demo_world_def
        demo_big_docs Let_def runBatches_def insertDoc_def docsToInsert_def demo_big_chunks
        insertSub_def flushBatch_def extractBatch.simps e MAX_CHARS_PER_BATCH_def
        batch_chars_def)
qed

theorem generateSynonyms_batch_bound_witness:
  "map (\<lambda>c. (map doc_name (fst c), batch_chars (fst c), snd c)) (synonymsCalls demo_env demo_big) =
     [([''big.json#1''], 20000, 1), ([''big.json#2''], 20000, 1),
      ([''big.json#3'', ''vpn.json''], 10044, 1)] \<and>
   list_all (\<lambda>c. batch_chars (fst c) \<le> MAX_CHARS_PER_BATCH \<or>
                 (\<exists>u. fst c = [u] \<and> length (doc_text u) > MAX_CHARS_PER_BATCH))
     (synonymsCalls demo_env demo_big)"
  using demo_big_calls generateSynonyms_batch_bound [of demo_env demo_big, THEN conjunct1]
  unfolding list_all_iff by blast

text \<open>
  C5. Every entry of the final output that \<open>generateSynonyms\<close> returns and writes to
  synonyms.json has a term that is lowercased, trimmed, non-empty and unique among the
  entries, and a non-empty synonym set without duplicates whose members are lowercased,
  trimmed, non-empty and different from the term.
\<close>

theorem generateSynonyms_output_invariant:
  assumes "synonymsOutput env w = Some out"
  shows "synonyms_json (synonymsWorld env w) = Some out \<and>
         distinct (map fst out) \<and>
         (\<forall>e \<in> set out.
            toLowerCase (fst e) = fst e \<and> trim (fst e) = fst e \<and> fst e \<noteq> [] \<and>
            snd e \<noteq> [] \<and> distinct (snd e) \<and>
            (\<forall>s \<in> set (snd e).
               toLowerCase s = s \<and> trim s = s \<and> s \<noteq> [] \<and> s \<noteq> fst e))"
proof -
  from generateSynonyms_cases [of w env] assms
  obtain results where o: "out = mergeStep results"
    and g: "synonyms_json (synonymsWorld env w) = Some out"
    by (auto simp: synonymsOutput_def synonymsWorld_def)
  from mergeStep_inv [of results]
  have "map_inv out" and "list_all (\<lambda>e. snd e \<noteq> []) out"
    unfolding o by simp_all
  then show ?thesis using g
    by (auto simp: map_inv_def entry_ok_def syn_ok_def list_all_iff)
qed

theorem generateSynonyms_output_invariant_witness:
  "synonymsOutput demo_env demo_world = Some [(''vpn'', [''virtual private network''])] \<and>
   synonyms_json (synonymsWorld demo_env demo_world) = Some [(''vpn'', [''virtual private network''])]"
proof -
  have o: "synonymsOutput demo_env demo_world = Some [(''vpn'', [''virtual private network''])]"
    by code_simp
  from generateSynonyms_output_invariant [OF o] o show ?thesis by simp
qed

theorem mergeStep_idempotent_witness:
  "mergeStep [Entry (Some '' VPN '') (Some [''Tunnel'', ''vpn'', '' '']), Null,
              Entry (Some ''vpn'') (Some [''tunnel'', ''Virtual Private Network'']),
              Entry (Some ''DNS'') (Some [''dns'']), Entry None None] =
     [(''vpn'', [''tunnel'', ''virtual private network''])] \<and>
   mergeStep (map as_raw [(''vpn'', [''tunnel'', ''virtual private network''])]) =
     [(''vpn'', [''tunnel'', ''virtual private network''])]"
proof -
  let ?raw = "[Entry (Some '' VPN '') (Some [''Tunnel'', ''vpn'', '' '']), Null,
              Entry (Some ''vpn'') (Some [''tunnel'', ''Virtual Private Network'']),
              Entry (Some ''DNS'') (Some [''dns'']), Entry None None]"
  have m: "mergeStep ?raw = [(''vpn'', [''tunnel'', ''virtual private network''])]"
    by code_simp
  from mergeStep_idempotent [of ?raw] show ?thesis unfolding m by simp
qed

section \<open>The sync: validation and the run guard\<close>

lemma syncTry_no_documents:
  "no_documents w \<Longrightarrow> \<exists>e. syncTry env w = (w, Inl e)"
  by (cases "wiki_files w") (auto simp: syncTry_def no_documents_def Let_def)

text \<open>
  C7. Whenever the source document directory is missing or holds no document file, a
  sync run returns nothing and leaves the hash cache, the remote stores and the synonym
  index as they were: the cache is not cleared, no store is deleted or created and
  nothing is uploaded. Of the whole state only the client handle \<open>ai\<close> may differ.
\<close>

theorem syncWikiToGeminiRag_validation_abort:
  assumes "no_documents w"
  shows "snd (syncWikiToGeminiRag env w) = None \<and>
         image_hash_cache (fst (syncWikiToGeminiRag env w)) = image_hash_cache w \<and>
         rag_stores (fst (syncWikiToGeminiRag env w)) = rag_stores w \<and>
         synonyms_json (fst (syncWikiToGeminiRag env w)) = synonyms_json w \<and>
         fst (syncWikiToGeminiRag env w) =
           w\<lparr>ai_ready := ai_ready (fst (syncWikiToGeminiRag env w))\<rparr>"
proof (cases "syncRunning w")
  case True
  then show ?thesis by (simp add: syncWikiToGeminiRag_def)
next
  case False
  let ?w1 = "initializeGemini (w\<lparr>syncRunning := True\<rparr>)"
  have "no_documents ?w1"
    using assms by (simp add: no_documents_def initializeGemini_def)
  then obtain e where "syncTry env ?w1 = (?w1, Inl e)"
    using syncTry_no_documents by blast
  then have "syncWikiToGeminiRag env w = (?w1\<lparr>syncRunning := False\<rparr>, None)"
    using False by (simp add: syncWikiToGeminiRag_def Let_def)
  then show ?thesis using False by (simp add: initializeGemini_def)
qed

theorem syncWikiToGeminiRag_validation_abort_witness:
  "no_documents demo_empty \<and>
   snd (syncWikiToGeminiRag demo_env demo_empty) = None \<and>
   image_hash_cache (fst (syncWikiToGeminiRag demo_env demo_empty)) =
     Some [(''shot.png'', ''md5:PNG'')] \<and>
   rag_stores (fst (syncWikiToGeminiRag demo_env demo_empty)) =
     [\<lparr>rs_name = ''fileSearchStores/it-wiki'', rs_displayName = ''IT_Wiki'', rs_docs = []\<rparr>]"
proof -
  have n: "no_documents demo_empty" by code_simp
  have h: "image_hash_cache demo_empty = Some [(''shot.png'', ''md5:PNG'')]"
    by (simp add: demo_empty_def)
  have r: "rag_stores demo_empty =
     [\<lparr>rs_name = ''fileSearchStores/it-wiki'', rs_displayName = ''IT_Wiki'', rs_docs = []\<rparr>]"
    by (simp add: demo_empty_def)
  from syncWikiToGeminiRag_validation_abort [OF n, of demo_env] n show ?thesis
    unfolding h r by simp
qed

text \<open>
  C8. If \<open>syncWikiToGeminiRag\<close> is invoked while the run guard \<open>syncRunning\<close> is set, it
  returns at once, with no result and the whole state unchanged.
\<close>

theorem syncWikiToGeminiRag_single_flight:
  assumes "syncRunning w"
  shows "syncWikiToGeminiRag env w = (w, None)"
  using assms by (simp add: syncWikiToGeminiRag_def)

theorem syncWikiToGeminiRag_single_flight_witness:
  "syncRunning (demo_world\<lparr>syncRunning := True\<rparr>) \<and>
   syncWikiToGeminiRag demo_env (demo_world\<lparr>syncRunning := True\<rparr>) =
     (demo_world\<lparr>syncRunning := True\<rparr>, None)"
proof -
  have s: "syncRunning (demo_world\<lparr>syncRunning := True\<rparr>)" by simp
  from syncWikiToGeminiRag_single_flight [OF s, of demo_env] s show ?thesis by simp
qed

section \<open>Search: a failing rewrite\<close>

text \<open>
  C9. For every question: if the generation call that
  \<open>rewriteUserQuestionForFileSearch\<close> makes fails with an error, the rewrite step ends
  with that error, and so does \<open>searchWiki\<close> whenever it reaches the rewrite step (the
  store was found); in no case does \<open>searchWiki\<close> return an answer, so there is no
  fallback to the question as typed.
\<close>

theorem rewrite_failure_propagates:
  assumes "buildSynonymContext
             (findRelevantSynonyms (toLowerCase q) (env_synonymEntries env)) = Inr ctx"
      and "env_rewrite env (rewritePrompt ctx q) = Inl e"
  shows "rewriteUserQuestionForFileSearch env q = Inl e \<and>
         (\<forall>store. findRagStoreByDisplayName env (initializeGemini w) (env_DATASET_NAME env) =
                    Inr (Some store) \<and> rs_name store \<noteq> [] \<longrightarrow>
                  snd (searchWiki env q customPrompt w) = Inl e) \<and>
         (\<exists>err. snd (searchWiki env q customPrompt w) = Inl err)"
proof -
  have r: "rewriteUserQuestionForFileSearch env q = Inl e"
    using assms by (simp add: rewriteUserQuestionForFileSearch_def Let_def)
  show ?thesis
    using r
    by (auto simp: searchWiki_def Let_def split: sum.splits option.splits)
qed

theorem rewrite_failure_propagates_witness:
  "buildSynonymContext
     (findRelevantSynonyms (toLowerCase ''How do I use the VPN'') (env_synonymEntries demo_env)) =
     Inr ''- vpn: virtual private network'' \<and>
   env_rewrite demo_env (rewritePrompt ''- vpn: virtual private network'' ''How do I use the VPN'') =
     Inl (Error ''503 Service Unavailable'') \<and>
   rewriteUserQuestionForFileSearch demo_env ''How do I use the VPN'' =
     Inl (Error ''503 Service Unavailable'') \<and>
   snd (searchWiki demo_env ''How do I use the VPN'' [] demo_empty) =
     Inl (Error ''503 Service Unavailable'')"
proof -
  let ?q = "''How do I use the VPN''"
  let ?store = "\<lparr>rs_name = ''fileSearchStores/it-wiki'', rs_displayName = ''IT_Wiki'', rs_docs = []\<rparr>"
  have c: "buildSynonymContext
     (findRelevantSynonyms (toLowerCase ?q) (env_synonymEntries demo_env)) =
     Inr ''- vpn: virtual private network''"
    by code_simp
  have g: "env_rewrite demo_env (rewritePrompt ''- vpn: virtual private network'' ?q) =
     Inl (Error ''503 Service Unavailable'')"
    by (simp add: demo_env_def)
  have f: "findRagStoreByDisplayName demo_env (initializeGemini demo_empty)
             (env_DATASET_NAME demo_env) = Inr (Some ?store) \<and> rs_name ?store \<noteq> []"
    by (simp add: findRagStoreByDisplayName_def initializeGemini_def demo_env_def
          demo_empty_def demo_world_def)
  from rewrite_failure_propagates [OF c g, of demo_empty "[]"] f c g
  show ?thesis by blast
qed

section \<open>Images: the hash cache across passes\<close>

lemma map_of_obj_set: "map_of (obj_set k v m) = (map_of m)(k \<mapsto> v)"
  by (induction m) auto

lemma uploadTextToRag_bytes:
  "uploadTextToRag env storeName content filename metadata w = (w2, err) \<Longrightarrow>
   image_bytes w2 = image_bytes w \<and> image_hash_cache w2 = image_hash_cache w"
  by (auto simp: uploadTextToRag_def split: option.splits)

text \<open>The four ways through the body of the loop.\<close>

lemma processImage_cases:
  fixes env storeName imagePageMap img st
  defines "hash \<equiv> env_md5 env (image_bytes (il_world st) img)"
  defines "seen \<equiv> il_processedInThisRun st @ [img]"
  shows
   "(img \<in> set (il_processedInThisRun st) \<and>
       processImage env storeName imagePageMap img st =
         st\<lparr>il_log := il_log st @ [RuntimeDuplicate img]\<rparr>) \<or>
    (img \<notin> set (il_processedInThisRun st) \<and> map_of (il_hashCache st) img = Some hash \<and>
       processImage env storeName imagePageMap img st =
         st\<lparr>il_processedInThisRun := seen, il_log := il_log st @ [HashMatch img]\<rparr>) \<or>
    (img \<notin> set (il_processedInThisRun st) \<and> map_of (il_hashCache st) img \<noteq> Some hash \<and>
       (\<exists>w2. image_bytes w2 = image_bytes (il_world st) \<and>
             image_hash_cache w2 = image_hash_cache (il_world st) \<and>
             processImage env storeName imagePageMap img st =
               st\<lparr>il_processedInThisRun := seen, il_world := w2,
                    il_log := il_log st @ [Analysing img, Failed img]\<rparr>)) \<or>
    (img \<notin> set (il_processedInThisRun st) \<and> map_of (il_hashCache st) img \<noteq> Some hash \<and>
       (\<exists>w2. image_bytes w2 = image_bytes (il_world st) \<and>
             processImage env storeName imagePageMap img st =
               st\<lparr>il_processedInThisRun := seen,
                    il_world := saveHashCache (obj_set img hash (il_hashCache st)) w2,
                    il_hashCache := obj_set img hash (il_hashCache st),
                    il_uploadedImages := il_uploadedImages st + 1,
                    il_log := il_log st @ [Analysing img, Uploaded img]\<rparr>))"
proof (cases "img \<in> set (il_processedInThisRun st)")
  case True
  then show ?thesis by (simp add: processImage_def)
next
  case new: False
  show ?thesis
  proof (cases "map_of (il_hashCache st) img = Some hash")
    case True
    then show ?thesis using new by (simp add: processImage_def Let_def hash_def seen_def)
  next
    case miss: False
    define sourcePage where "sourcePage =
      (case map_of imagePageMap img of None \<Rightarrow> ''Unknown''
       | Some p \<Rightarrow> if p = [] then ''Unknown'' else p)"
    define content where "content =
      ''SOURCE PAGE: '' @ sourcePage @ [CHR 0x0A] @ ''IMAGE: '' @ img @ [CHR 0x0A, CHR 0x0A] @
      ''DESCRIPTION:'' @ [CHR 0x0A] @ env_analyze env img"
    define metadata where "metadata =
      [(''type'', ''wiki-image''), (''source_page'', sourcePage),
       (''image_name'', img @ ''-'' @ env_uuid env img), (''image_guid'', env_uuid env img)]"
    obtain w2 err where u: "uploadTextToRag env storeName content (replace_ext img ''.txt'')
        metadata (il_world st) = (w2, err)"
      by (cases "uploadTextToRag env storeName content (replace_ext img ''.txt'')
        metadata (il_world st)")
    have b: "image_bytes w2 = image_bytes (il_world st)"
      and c: "image_hash_cache w2 = image_hash_cache (il_world st)"
      using uploadTextToRag_bytes [OF u] by simp_all
    show ?thesis
    proof (cases err)
      case None
      have "processImage env storeName imagePageMap img st =
               st\<lparr>il_processedInThisRun := seen,
                    il_world := saveHashCache (obj_set img hash (il_hashCache st)) w2,
                    il_hashCache := obj_set img hash (il_hashCache st),
                    il_uploadedImages := il_uploadedImages st + 1,
                    il_log := il_log st @ [Analysing img, Uploaded img]\<rparr>"
        using new miss u None
        by (simp add: processImage_def Let_def hash_def seen_def sourcePage_def content_def
              metadata_def)
      then show ?thesis using new miss b by blast
    next
      case (Some e)
      have "processImage env storeName imagePageMap img st =
               st\<lparr>il_processedInThisRun := seen, il_world := w2,
                    il_log := il_log st @ [Analysing img, Failed img]\<rparr>"
        using new miss u Some
        by (simp add: processImage_def Let_def hash_def seen_def sourcePage_def content_def
              metadata_def)
      then show ?thesis using new miss b c by blast
    qed
  qed
qed

lemma processImage_pass_inv:
  assumes "pass_inv env w st"
  shows "pass_inv env w (processImage env storeName imagePageMap img st)"
proof -
  have b: "image_bytes (il_world st) = image_bytes w"
    using assms by (simp add: pass_inv_def)
  from processImage_cases [of img st env storeName imagePageMap]
  show ?thesis
  proof (elim disjE conjE exE)
    assume "processImage env storeName imagePageMap img st =
         st\<lparr>il_log := il_log st @ [RuntimeDuplicate img]\<rparr>"
    then show ?thesis using assms by (simp add: pass_inv_def)
  next
    assume "processImage env storeName imagePageMap img st =
         st\<lparr>il_processedInThisRun := il_processedInThisRun st @ [img],
            il_log := il_log st @ [HashMatch img]\<rparr>"
    then show ?thesis using assms by (simp add: pass_inv_def)
  next
    fix w2
    assume "image_bytes w2 = image_bytes (il_world st)"
       and "image_hash_cache w2 = image_hash_cache (il_world st)"
       and "processImage env storeName imagePageMap img st =
               st\<lparr>il_processedInThisRun := il_processedInThisRun st @ [img], il_world := w2,
                    il_log := il_log st @ [Analysing img, Failed img]\<rparr>"
    then show ?thesis using assms by (simp add: pass_inv_def)
  next
    fix w2
    assume n: "img \<notin> set (il_processedInThisRun st)"
       and w2: "image_bytes w2 = image_bytes (il_world st)"
       and p: "processImage env storeName imagePageMap img st =
               st\<lparr>il_processedInThisRun := il_processedInThisRun st @ [img],
                    il_world := saveHashCache
                      (obj_set img (env_md5 env (image_bytes (il_world st) img)) (il_hashCache st)) w2,
                    il_hashCache :=
                      obj_set img (env_md5 env (image_bytes (il_world st) img)) (il_hashCache st),
                    il_uploadedImages := il_uploadedImages st + 1,
                    il_log := il_log st @ [Analysing img, Uploaded img]\<rparr>"
    show ?thesis
      unfolding p using assms n w2 b
      by (auto simp: pass_inv_def saveHashCache_def map_of_obj_set)
  qed
qed

lemma fold_processImage_pass_inv:
  "pass_inv env w st \<Longrightarrow>
   pass_inv env w (fold (processImage env storeName imagePageMap) imgs st)"
  by (induction imgs arbitrary: st) (simp_all add: processImage_pass_inv)

lemma processImage_hit_inv:
  assumes "hit_inv a (env_md5 env (image_bytes w a)) w st"
  shows "hit_inv a (env_md5 env (image_bytes w a)) w
           (processImage env storeName imagePageMap img st)"
proof -
  have b: "image_bytes (il_world st) = image_bytes w"
    using assms by (simp add: hit_inv_def)
  have h: "map_of (il_hashCache st) a = Some (env_md5 env (image_bytes w a))"
    using assms by (simp add: hit_inv_def)
  from processImage_cases [of img st env storeName imagePageMap]
  show ?thesis
  proof (elim disjE conjE exE)
    assume "img \<in> set (il_processedInThisRun st)"
       and "processImage env storeName imagePageMap img st =
         st\<lparr>il_log := il_log st @ [RuntimeDuplicate img]\<rparr>"
    then show ?thesis using assms by (simp add: hit_inv_def)
  next
    assume "processImage env storeName imagePageMap img st =
         st\<lparr>il_processedInThisRun := il_processedInThisRun st @ [img],
            il_log := il_log st @ [HashMatch img]\<rparr>"
    then show ?thesis using assms by (auto simp: hit_inv_def)
  next
    fix w2
    assume m: "map_of (il_hashCache st) img \<noteq> Some (env_md5 env (image_bytes (il_world st) img))"
       and "image_bytes w2 = image_bytes (il_world st)"
       and "image_hash_cache w2 = image_hash_cache (il_world st)"
       and p: "processImage env storeName imagePageMap img st =
               st\<lparr>il_processedInThisRun := il_processedInThisRun st @ [img], il_world := w2,
                    il_log := il_log st @ [Analysing img, Failed img]\<rparr>"
    have "img \<noteq> a" using m h b by auto
    then show ?thesis unfolding p
      using assms \<open>image_bytes w2 = image_bytes (il_world st)\<close>
        \<open>image_hash_cache w2 = image_hash_cache (il_world st)\<close>
      by (auto simp: hit_inv_def loadHashCache_def)
  next
    fix w2
    assume m: "map_of (il_hashCache st) img \<noteq> Some (env_md5 env (image_bytes (il_world st) img))"
       and w2: "image_bytes w2 = image_bytes (il_world st)"
       and p: "processImage env storeName imagePageMap img st =
               st\<lparr>il_processedInThisRun := il_processedInThisRun st @ [img],
                    il_world := saveHashCache
                      (obj_set img (env_md5 env (image_bytes (il_world st) img)) (il_hashCache st)) w2,
                    il_hashCache :=
                      obj_set img (env_md5 env (image_bytes (il_world st) img)) (il_hashCache st),
                    il_uploadedImages := il_uploadedImages st + 1,
                    il_log := il_log st @ [Analysing img, Uploaded img]\<rparr>"
    have "img \<noteq> a" using m h b by auto
    then show ?thesis unfolding p using assms w2
      by (auto simp: hit_inv_def loadHashCache_def saveHashCache_def map_of_obj_set)
  qed
qed

lemma fold_processImage_hit_inv:
  "hit_inv a (env_md5 env (image_bytes w a)) w st \<Longrightarrow>
   hit_inv a (env_md5 env (image_bytes w a)) w
     (fold (processImage env storeName imagePageMap) imgs st)"
  by (induction imgs arbitrary: st) (simp_all add: processImage_hit_inv)

lemma processImage_seen:
  "set (il_processedInThisRun (processImage env storeName imagePageMap img st)) =
   insert img (set (il_processedInThisRun st))"
  using processImage_cases [of img st env storeName imagePageMap] by auto

lemma fold_processImage_seen:
  "set (il_processedInThisRun (fold (processImage env storeName imagePageMap) imgs st)) =
   set imgs \<union> set (il_processedInThisRun st)"
  by (induction imgs arbitrary: st) (simp_all add: processImage_seen)

lemma processImagesToRag_result:
  assumes "processImagesToRag env storeName w = (w', Inr r)"
  shows "\<exists>imagePageMap listing st.
           wiki_images w = Some listing \<and>
           st = fold (processImage env storeName imagePageMap) (filter is_image listing)
                  \<lparr>il_world = w, il_processedInThisRun = [],
                   il_hashCache = loadHashCache w, il_uploadedImages = 0, il_log = []\<rparr> \<and>
           w' = il_world st \<and> ir_log r = il_log st"
  using assms
  by (auto simp: processImagesToRag_def Let_def split: sum.splits option.splits)

text \<open>
  Two passes with the cache file kept between them: a pass that uploaded the asset \<open>a\<close>,
  and a later pass that starts with the hash cache file as the first pass left it, with
  the bytes of \<open>a\<close> unchanged and \<open>a\<close> still listed. The later pass skips \<open>a\<close>.
\<close>

lemma processImagesToRag_skips_uploaded:
  assumes run1: "processImagesToRag env1 store1 w0 = (w1, Inr r1)"
      and up: "Uploaded a \<in> set (ir_log r1)"
      and bytes: "image_bytes w a = image_bytes w0 a"
      and md5: "env_md5 env2 = env_md5 env1"
      and cache: "image_hash_cache w = image_hash_cache w1"
      and listed: "wiki_images w = Some listing" "a \<in> set listing" "is_image a"
      and run2: "processImagesToRag env2 store2 w = (w2, Inr r2)"
  shows "HashMatch a \<in> set (ir_log r2) \<and>
         Analysing a \<notin> set (ir_log r2) \<and> Uploaded a \<notin> set (ir_log r2) \<and>
         map_of (loadHashCache w2) a = map_of (loadHashCache w1) a \<and>
         map_of (loadHashCache w1) a = Some (env_md5 env1 (image_bytes w0 a))"
proof -
  let ?h = "env_md5 env1 (image_bytes w0 a)"
  from processImagesToRag_result [OF run1]
  obtain m1 l1 st1 where
    st1: "st1 = fold (processImage env1 store1 m1) (filter is_image l1)
                  \<lparr>il_world = w0, il_processedInThisRun = [],
                   il_hashCache = loadHashCache w0, il_uploadedImages = 0, il_log = []\<rparr>"
    and w1: "w1 = il_world st1" and r1: "ir_log r1 = il_log st1"
    by blast
  have "pass_inv env1 w0 \<lparr>il_world = w0, il_processedInThisRun = [],
                   il_hashCache = loadHashCache w0, il_uploadedImages = 0, il_log = []\<rparr>"
    by (simp add: pass_inv_def)
  then have "pass_inv env1 w0 st1"
    unfolding st1 by (rule fold_processImage_pass_inv)
  then have c1: "map_of (loadHashCache w1) a = Some ?h"
    using up r1 w1 by (auto simp: pass_inv_def loadHashCache_def)
  from processImagesToRag_result [OF run2] listed(1)
  obtain m2 st2 where
    st2: "st2 = fold (processImage env2 store2 m2) (filter is_image listing)
                  \<lparr>il_world = w, il_processedInThisRun = [],
                   il_hashCache = loadHashCache w, il_uploadedImages = 0, il_log = []\<rparr>"
    and w2: "w2 = il_world st2" and r2: "ir_log r2 = il_log st2"
    by auto
  have h2: "env_md5 env2 (image_bytes w a) = ?h" using bytes md5 by simp
  have c0: "map_of (loadHashCache w) a = Some ?h"
    using c1 cache by (simp add: loadHashCache_def)
  have "hit_inv a (env_md5 env2 (image_bytes w a)) w
          \<lparr>il_world = w, il_processedInThisRun = [],
           il_hashCache = loadHashCache w, il_uploadedImages = 0, il_log = []\<rparr>"
    using c0 h2 by (simp add: hit_inv_def)
  then have "hit_inv a (env_md5 env2 (image_bytes w a)) w st2"
    unfolding st2 by (rule fold_processImage_hit_inv)
  then have hit: "hit_inv a ?h w st2" using h2 by simp
  have "a \<in> set (il_processedInThisRun st2)"
    unfolding st2 using listed(2,3) by (simp add: fold_processImage_seen)
  then show ?thesis
    using hit c1 w2 r2 by (simp add: hit_inv_def)
qed

lemma mini_names:
  "is_json ''p.json''" "is_image ''a.png''" "replace_ext ''a.png'' ''.txt'' = ''a.txt''"
  by code_simp+

lemmas sync_defs =
  syncWikiToGeminiRag_def syncTry_def initializeGemini_def clearImageHashCache_def
  SetUpFileSearchStore_def findRagStoreByDisplayName_def generateSynonyms_def
  loadWikiDocs_def runBatches_def mergeStep_def uploadTextToRag_def
  getSynonymsForContent_def synonymMetadata_def processImagesToRag_def
  buildImagePageMap_def processImage_def loadHashCache_def saveHashCache_def Let_def

lemma mini_pass_one:
  "processImagesToRag mini_env ''s'' mini_fresh =
     (mini_pass1, Inr \<lparr>uploadedImages = 1, ir_store = ''s'',
                       ir_log = [Analysing ''a.png'', Uploaded ''a.png'']\<rparr>)"
  by (simp add: sync_defs mini_env_def mini_world_def mini_fresh_def mini_pass1_def mini_names)

lemma mini_pass_two:
  "processImagesToRag mini_env ''s'' mini_pass1 =
     (mini_pass1, Inr \<lparr>uploadedImages = 0, ir_store = ''s'', ir_log = [HashMatch ''a.png'']\<rparr>)"
  by (simp add: sync_defs mini_env_def mini_world_def mini_pass1_def mini_names)

section \<open>A sync run starts the image pass without a hash cache\<close>

lemma processImage_fresh_inv:
  assumes "fresh_inv env w st"
  shows "fresh_inv env w (processImage env storeName imagePageMap img st)"
proof -
  have b: "image_bytes (il_world st) = image_bytes w"
    using assms by (simp add: fresh_inv_def)
  have k: "\<And>a h. map_of (il_hashCache st) a = Some h \<Longrightarrow> a \<in> set (il_processedInThisRun st)"
    using assms by (simp add: fresh_inv_def)
  from processImage_cases [of img st env storeName imagePageMap]
  show ?thesis
  proof (elim disjE conjE exE)
    assume "processImage env storeName imagePageMap img st =
         st\<lparr>il_log := il_log st @ [RuntimeDuplicate img]\<rparr>"
    then show ?thesis using assms by (simp add: fresh_inv_def)
  next
    assume "img \<notin> set (il_processedInThisRun st)"
       and "map_of (il_hashCache st) img = Some (env_md5 env (image_bytes (il_world st) img))"
    then have False using k by blast
    then show ?thesis ..
  next
    fix w2
    assume "image_bytes w2 = image_bytes (il_world st)"
       and "image_hash_cache w2 = image_hash_cache (il_world st)"
       and "processImage env storeName imagePageMap img st =
               st\<lparr>il_processedInThisRun := il_processedInThisRun st @ [img], il_world := w2,
                    il_log := il_log st @ [Analysing img, Failed img]\<rparr>"
    then show ?thesis using assms by (auto simp: fresh_inv_def)
  next
    fix w2
    assume w2: "image_bytes w2 = image_bytes (il_world st)"
       and p: "processImage env storeName imagePageMap img st =
               st\<lparr>il_processedInThisRun := il_processedInThisRun st @ [img],
                    il_world := saveHashCache
                      (obj_set img (env_md5 env (image_bytes (il_world st) img)) (il_hashCache st)) w2,
                    il_hashCache :=
                      obj_set img (env_md5 env (image_bytes (il_world st) img)) (il_hashCache st),
                    il_uploadedImages := il_uploadedImages st + 1,
                    il_log := il_log st @ [Analysing img, Uploaded img]\<rparr>"
    show ?thesis
      unfolding p using assms w2 b
      by (auto simp: fresh_inv_def saveHashCache_def map_of_obj_set split: if_splits)
  qed
qed

lemma fold_processImage_fresh_inv:
  "fresh_inv env w st \<Longrightarrow>
   fresh_inv env w (fold (processImage env storeName imagePageMap) imgs st)"
  by (induction imgs arbitrary: st) (simp_all add: processImage_fresh_inv)

lemma processImagesToRag_fresh:
  assumes run: "processImagesToRag env storeName w = (w', Inr r)"
      and none: "image_hash_cache w = None"
  shows "(\<forall>a. HashMatch a \<notin> set (ir_log r)) \<and>
         (\<forall>listing. wiki_images w = Some listing \<longrightarrow>
            (\<forall>a \<in> set listing. is_image a \<longrightarrow> Analysing a \<in> set (ir_log r))) \<and>
         (\<forall>a h. map_of (loadHashCache w') a = Some h \<longrightarrow>
            h = env_md5 env (image_bytes w a) \<and>
            (\<exists>listing. wiki_images w = Some listing \<and> a \<in> set listing))"
proof -
  from processImagesToRag_result [OF run]
  obtain m listing st where l: "wiki_images w = Some listing"
    and st: "st = fold (processImage env storeName m) (filter is_image listing)
                  \<lparr>il_world = w, il_processedInThisRun = [],
                   il_hashCache = loadHashCache w, il_uploadedImages = 0, il_log = []\<rparr>"
    and w': "w' = il_world st" and r: "ir_log r = il_log st"
    by blast
  have "fresh_inv env w \<lparr>il_world = w, il_processedInThisRun = [],
                   il_hashCache = loadHashCache w, il_uploadedImages = 0, il_log = []\<rparr>"
    using none by (simp add: fresh_inv_def loadHashCache_def)
  then have inv: "fresh_inv env w st"
    unfolding st by (rule fold_processImage_fresh_inv)
  have seen: "set (il_processedInThisRun st) = set (filter is_image listing)"
    unfolding st by (simp add: fold_processImage_seen)
  have 1: "\<forall>a. HashMatch a \<notin> set (ir_log r)"
    using inv r by (simp add: fresh_inv_def)
  have 2: "\<forall>listing'. wiki_images w = Some listing' \<longrightarrow>
            (\<forall>a \<in> set listing'. is_image a \<longrightarrow> Analysing a \<in> set (ir_log r))"
    using inv r l seen by (auto simp: fresh_inv_def)
  have 3: "\<forall>a h. map_of (loadHashCache w') a = Some h \<longrightarrow>
            h = env_md5 env (image_bytes w a) \<and>
            (\<exists>listing. wiki_images w = Some listing \<and> a \<in> set listing)"
  proof (intro allI impI)
    fix a h
    assume a: "map_of (loadHashCache w') a = Some h"
    have "loadHashCache w' = il_hashCache st"
    proof (cases "image_hash_cache (il_world st)")
      case None
      then show ?thesis using a w' by (simp add: loadHashCache_def)
    next
      case (Some c)
      then show ?thesis using inv w' by (simp add: fresh_inv_def loadHashCache_def)
    qed
    then have "a \<in> set (il_processedInThisRun st) \<and> h = env_md5 env (image_bytes w a)"
      using inv a by (simp add: fresh_inv_def)
    then show "h = env_md5 env (image_bytes w a) \<and>
               (\<exists>listing. wiki_images w = Some listing \<and> a \<in> set listing)"
      using seen l by auto
  qed
  show ?thesis using 1 2 3 by blast
qed

lemma uploadTextToRag_fields:
  "uploadTextToRag env storeName content filename metadata w = (w2, err) \<Longrightarrow>
   image_bytes w2 = image_bytes w \<and> image_hash_cache w2 = image_hash_cache w \<and>
   wiki_images w2 = wiki_images w"
  by (auto simp: uploadTextToRag_def split: option.splits)

lemma uploadTextFiles_fields:
  "uploadTextFiles env storeName files n w = (w2, r) \<Longrightarrow>
   image_bytes w2 = image_bytes w \<and> image_hash_cache w2 = image_hash_cache w \<and>
   wiki_images w2 = wiki_images w"
proof (induction files arbitrary: n w)
  case Nil
  then show ?case by simp
next
  case (Cons f rest)
  obtain fname parsed where f: "f = (fname, parsed)" by (cases f)
  show ?case
  proof (cases parsed)
    case None
    then show ?thesis using Cons.prems f by simp
  next
    case (Some json)
    define content where "content = ''TITLE: '' @ wj_title json @ '' '' @ [CHR 0x0A] @
                        ''SOURCE: '' @ wj_source json @ '' '' @ [CHR 0x0A, CHR 0x0A] @
                        wj_content json @ '' ''"
    define metadata where "metadata = [(''type'', ''wiki-text''), (''wiki_title'', wj_title json),
                          (''wiki_file'', fname)] @
                          synonymMetadata (getSynonymsForContent (env_synonymConfigs env) content)"
    obtain w1 err where u: "uploadTextToRag env storeName content fname metadata w = (w1, err)"
      by (cases "uploadTextToRag env storeName content fname metadata w")
    have g: "image_bytes w1 = image_bytes w \<and> image_hash_cache w1 = image_hash_cache w \<and>
             wiki_images w1 = wiki_images w"
      using uploadTextToRag_fields [OF u] .
    show ?thesis
    proof (cases err)
      case (Some e)
      then have "uploadTextFiles env storeName (f # rest) n w = (w1, Inl e)"
        using u f \<open>parsed = Some json\<close> by (simp add: Let_def content_def metadata_def)
      then show ?thesis using Cons.prems g by simp
    next
      case None
      then have "uploadTextFiles env storeName (f # rest) n w =
                 uploadTextFiles env storeName rest (n + 1) w1"
        using u f \<open>parsed = Some json\<close> by (simp add: Let_def content_def metadata_def)
      then have "uploadTextFiles env storeName rest (n + 1) w1 = (w2, r)"
        using Cons.prems by simp
      from Cons.IH [OF this] g show ?thesis by simp
    qed
  qed
qed

lemma SetUpFileSearchStore_fields:
  "SetUpFileSearchStore env w = (w2, r) \<Longrightarrow>
   image_bytes w2 = image_bytes w \<and> image_hash_cache w2 = image_hash_cache w \<and>
   wiki_images w2 = wiki_images w"
  by (auto simp: SetUpFileSearchStore_def findRagStoreByDisplayName_def Let_def
      split: sum.splits option.splits if_splits prod.splits)

lemma generateSynonyms_fields:
  "generateSynonyms env w = (w2, r) \<Longrightarrow>
   image_bytes w2 = image_bytes w \<and> image_hash_cache w2 = image_hash_cache w \<and>
   wiki_images w2 = wiki_images w"
  by (auto simp: generateSynonyms_def Let_def split: option.splits)

lemma processImagesToRag_error:
  "processImagesToRag env storeName w = (w', Inl e) \<Longrightarrow> w' = w"
  by (auto simp: processImagesToRag_def Let_def split: sum.splits option.splits)

text \<open>A run that passes validation: it stops with no hash cache, or it reaches the image pass.\<close>

lemma syncTry_pass:
  assumes run: "syncTry env w = (w', r)" and docs: "\<not> no_documents w"
  shows "(image_hash_cache w' = None \<and> (\<forall>res. r \<noteq> Inr res)) \<or>
         (\<exists>storeName w4 ir n.
            image_hash_cache w4 = None \<and> wiki_images w4 = wiki_images w \<and>
            image_bytes w4 = image_bytes w \<and>
            processImagesToRag env storeName w4 = (w', Inr ir) \<and>
            r = Inr \<lparr>textFilesUploaded = n, imageFilesUploaded = uploadedImages ir,
                     sr_store = storeName\<rparr>)"
proof -
  obtain files where files: "wiki_files w = Some files"
    and ne: "filter (\<lambda>(file, parsed). is_json file) files \<noteq> []"
    using docs by (auto simp: no_documents_def split: option.splits)
  let ?textFiles = "filter (\<lambda>(file, parsed). is_json file) files"
  let ?wa = "clearImageHashCache w"
  have c1: "image_hash_cache ?wa = None" "wiki_images ?wa = wiki_images w"
    "image_bytes ?wa = image_bytes w"
    by (simp_all add: clearImageHashCache_def)
  obtain w2 s where store: "SetUpFileSearchStore env ?wa = (w2, s)"
    by (cases "SetUpFileSearchStore env ?wa")
  have c2: "image_hash_cache w2 = None" "wiki_images w2 = wiki_images w"
    "image_bytes w2 = image_bytes w"
    using SetUpFileSearchStore_fields [OF store] c1 by simp_all
  show ?thesis
  proof (cases s)
    case (Inl e)
    then have "syncTry env w = (w2, Inl e)"
      using files ne store by (simp add: syncTry_def Let_def)
    then show ?thesis using run c2 by auto
  next
    case (Inr storeName)
    obtain w3 syn calls where gen: "generateSynonyms env w2 = (w3, syn, calls)"
      by (cases "generateSynonyms env w2") auto
    have c3: "image_hash_cache w3 = None" "wiki_images w3 = wiki_images w"
      "image_bytes w3 = image_bytes w"
      using generateSynonyms_fields [OF gen] c2 by simp_all
    obtain w4 u where up: "uploadTextFiles env storeName ?textFiles 0 w3 = (w4, u)"
      by (cases "uploadTextFiles env storeName ?textFiles 0 w3")
    have c4: "image_hash_cache w4 = None" "wiki_images w4 = wiki_images w"
      "image_bytes w4 = image_bytes w"
      using uploadTextFiles_fields [OF up] c3 by simp_all
    show ?thesis
    proof (cases u)
      case (Inl e)
      then have "syncTry env w = (w4, Inl e)"
        using files ne store \<open>s = Inr storeName\<close> gen up by (simp add: syncTry_def Let_def)
      then show ?thesis using run c4 by auto
    next
      case n: (Inr n)
      obtain w5 p where pass: "processImagesToRag env storeName w4 = (w5, p)"
        by (cases "processImagesToRag env storeName w4")
      show ?thesis
      proof (cases p)
        case (Inl e)
        then have "syncTry env w = (w5, Inl e)"
          using files ne store \<open>s = Inr storeName\<close> gen up n pass
          by (simp add: syncTry_def Let_def)
        moreover have "w5 = w4" using pass Inl processImagesToRag_error by blast
        ultimately show ?thesis using run c4 by auto
      next
        case (Inr ir)
        then have "syncTry env w =
            (w5, Inr \<lparr>textFilesUploaded = n, imageFilesUploaded = uploadedImages ir,
                      sr_store = storeName\<rparr>)"
          using files ne store \<open>s = Inr storeName\<close> gen up n pass
          by (simp add: syncTry_def Let_def)
        then have "w' = w5 \<and> r = Inr \<lparr>textFilesUploaded = n,
                      imageFilesUploaded = uploadedImages ir, sr_store = storeName\<rparr>"
          using run by simp
        then show ?thesis using pass Inr c4 by blast
      qed
    qed
  qed
qed

lemma syncWikiToGeminiRag_pass:
  assumes idle: "\<not> syncRunning ws" and docs: "\<not> no_documents ws"
  shows "(image_hash_cache (fst (syncWikiToGeminiRag env ws)) = None \<and>
          snd (syncWikiToGeminiRag env ws) = None) \<or>
         (\<exists>storeName w4 w5 ir n.
            image_hash_cache w4 = None \<and> wiki_images w4 = wiki_images ws \<and>
            image_bytes w4 = image_bytes ws \<and>
            processImagesToRag env storeName w4 = (w5, Inr ir) \<and>
            fst (syncWikiToGeminiRag env ws) = w5\<lparr>syncRunning := False\<rparr> \<and>
            snd (syncWikiToGeminiRag env ws) =
              Some \<lparr>textFilesUploaded = n, imageFilesUploaded = uploadedImages ir,
                    sr_store = storeName\<rparr>)"
proof -
  let ?wa = "initializeGemini (ws\<lparr>syncRunning := True\<rparr>)"
  have f: "wiki_images ?wa = wiki_images ws" "image_bytes ?wa = image_bytes ws"
    by (simp_all add: initializeGemini_def)
  have d: "\<not> no_documents ?wa"
    using docs by (simp add: no_documents_def initializeGemini_def)
  obtain w' r where t: "syncTry env ?wa = (w', r)" by (cases "syncTry env ?wa")
  have s: "syncWikiToGeminiRag env ws =
           (w'\<lparr>syncRunning := False\<rparr>, case r of Inl e \<Rightarrow> None | Inr res \<Rightarrow> Some res)"
    using idle t by (simp add: syncWikiToGeminiRag_def Let_def)
  from syncTry_pass [OF t d] show ?thesis
  proof
    assume "image_hash_cache w' = None \<and> (\<forall>res. r \<noteq> Inr res)"
    then show ?thesis unfolding s by (cases r) auto
  next
    assume "\<exists>storeName w4 ir n.
            image_hash_cache w4 = None \<and> wiki_images w4 = wiki_images ?wa \<and>
            image_bytes w4 = image_bytes ?wa \<and>
            processImagesToRag env storeName w4 = (w', Inr ir) \<and>
            r = Inr \<lparr>textFilesUploaded = n, imageFilesUploaded = uploadedImages ir,
                     sr_store = storeName\<rparr>"
    then obtain storeName w4 ir n where
      "image_hash_cache w4 = None" "wiki_images w4 = wiki_images ws"
      "image_bytes w4 = image_bytes ws"
      "processImagesToRag env storeName w4 = (w', Inr ir)"
      "r = Inr \<lparr>textFilesUploaded = n, imageFilesUploaded = uploadedImages ir,
                     sr_store = storeName\<rparr>"
      using f by auto
    then show ?thesis unfolding s by auto
  qed
qed

text \<open>
  C2, as amended.
  \<^item> Passes of \<open>processImagesToRag\<close>: take a pass that uploaded the asset \<open>a\<close>, and a later
    pass that starts with the hash cache file as the first pass left it (no cache clear
    in between), with the bytes of \<open>a\<close> unchanged and \<open>a\<close> still listed. The later pass
    skips \<open>a\<close> as a hash match, with no analysis and no upload, and the cache record of
    \<open>a\<close> is the same after it: the digest of the bytes.
  \<^item> Sync runs: every run of \<open>syncWikiToGeminiRag\<close> that passes validation clears the
    hash cache, so after it the cache holds only records written by that run (the
    digest of the current bytes of a listed image). Every run that returns a result
    made its image pass from a state without a hash cache: no image was skipped as a
    hash match and every listed image was analysed again.
\<close>

theorem hash_cache_across_runs:
  "(processImagesToRag env1 store1 w0 = (w1, Inr r1) \<and> Uploaded a \<in> set (ir_log r1) \<and>
    image_bytes w a = image_bytes w0 a \<and> env_md5 env2 = env_md5 env1 \<and>
    image_hash_cache w = image_hash_cache w1 \<and>
    wiki_images w = Some listing \<and> a \<in> set listing \<and> is_image a \<and>
    processImagesToRag env2 store2 w = (w2, Inr r2) \<longrightarrow>
      HashMatch a \<in> set (ir_log r2) \<and>
      Analysing a \<notin> set (ir_log r2) \<and> Uploaded a \<notin> set (ir_log r2) \<and>
      map_of (loadHashCache w2) a = map_of (loadHashCache w1) a \<and>
      map_of (loadHashCache w1) a = Some (env_md5 env1 (image_bytes w0 a))) \<and>
   (\<not> syncRunning ws \<and> \<not> no_documents ws \<longrightarrow>
      (\<forall>b h. map_of (loadHashCache (fst (syncWikiToGeminiRag env ws))) b = Some h \<longrightarrow>
         h = env_md5 env (image_bytes ws b) \<and>
         (\<exists>present. wiki_images ws = Some present \<and> b \<in> set present))) \<and>
   (snd (syncWikiToGeminiRag env ws) = Some res \<longrightarrow>
      (\<exists>storeName w4 w5 ir.
         image_hash_cache w4 = None \<and> wiki_images w4 = wiki_images ws \<and>
         image_bytes w4 = image_bytes ws \<and>
         processImagesToRag env storeName w4 = (w5, Inr ir) \<and>
         fst (syncWikiToGeminiRag env ws) = w5\<lparr>syncRunning := False\<rparr> \<and>
         imageFilesUploaded res = uploadedImages ir \<and>
         (\<forall>b. HashMatch b \<notin> set (ir_log ir)) \<and>
         (\<forall>present. wiki_images ws = Some present \<longrightarrow>
            (\<forall>b \<in> set present. is_image b \<longrightarrow> Analysing b \<in> set (ir_log ir)))))"
proof -
  have passes: "processImagesToRag env1 store1 w0 = (w1, Inr r1) \<and> Uploaded a \<in> set (ir_log r1) \<and>
    image_bytes w a = image_bytes w0 a \<and> env_md5 env2 = env_md5 env1 \<and>
    image_hash_cache w = image_hash_cache w1 \<and>
    wiki_images w = Some listing \<and> a \<in> set listing \<and> is_image a \<and>
    processImagesToRag env2 store2 w = (w2, Inr r2) \<longrightarrow>
      HashMatch a \<in> set (ir_log r2) \<and>
      Analysing a \<notin> set (ir_log r2) \<and> Uploaded a \<notin> set (ir_log r2) \<and>
      map_of (loadHashCache w2) a = map_of (loadHashCache w1) a \<and>
      map_of (loadHashCache w1) a = Some (env_md5 env1 (image_bytes w0 a))"
  proof (rule impI)
  assume "processImagesToRag env1 store1 w0 = (w1, Inr r1) \<and> Uploaded a \<in> set (ir_log r1) \<and>
    image_bytes w a = image_bytes w0 a \<and> env_md5 env2 = env_md5 env1 \<and>
    image_hash_cache w = image_hash_cache w1 \<and>
    wiki_images w = Some listing \<and> a \<in> set listing \<and> is_image a \<and>
    processImagesToRag env2 store2 w = (w2, Inr r2)"
  then show "HashMatch a \<in> set (ir_log r2) \<and>
      Analysing a \<notin> set (ir_log r2) \<and> Uploaded a \<notin> set (ir_log r2) \<and>
      map_of (loadHashCache w2) a = map_of (loadHashCache w1) a \<and>
      map_of (loadHashCache w1) a = Some (env_md5 env1 (image_bytes w0 a))"
    using processImagesToRag_skips_uploaded [of env1 store1 w0 w1 r1 a w env2 listing store2 w2 r2]
    by blast
  qed
  have cleared: "\<not> syncRunning ws \<and> \<not> no_documents ws \<longrightarrow>
      (\<forall>b h. map_of (loadHashCache (fst (syncWikiToGeminiRag env ws))) b = Some h \<longrightarrow>
         h = env_md5 env (image_bytes ws b) \<and>
         (\<exists>present. wiki_images ws = Some present \<and> b \<in> set present))"
  proof (rule impI)
  assume v: "\<not> syncRunning ws \<and> \<not> no_documents ws"
  then have idle: "\<not> syncRunning ws" and docs: "\<not> no_documents ws" by simp_all
  from syncWikiToGeminiRag_pass [OF idle docs, of env]
  consider (none) "image_hash_cache (fst (syncWikiToGeminiRag env ws)) = None"
    | (pass) storeName w4 w5 ir where
        "image_hash_cache w4 = None" "wiki_images w4 = wiki_images ws"
        "image_bytes w4 = image_bytes ws"
        "processImagesToRag env storeName w4 = (w5, Inr ir)"
        "fst (syncWikiToGeminiRag env ws) = w5\<lparr>syncRunning := False\<rparr>"
    by (elim disjE exE conjE) auto
  then show "\<forall>b h. map_of (loadHashCache (fst (syncWikiToGeminiRag env ws))) b = Some h \<longrightarrow>
         h = env_md5 env (image_bytes ws b) \<and>
         (\<exists>present. wiki_images ws = Some present \<and> b \<in> set present)"
  proof cases
    case none
    then show ?thesis by (simp add: loadHashCache_def)
  next
    case pass
    have "loadHashCache (fst (syncWikiToGeminiRag env ws)) = loadHashCache w5"
      unfolding pass(5) by (simp add: loadHashCache_def)
    then show ?thesis
      using processImagesToRag_fresh [OF pass(4) pass(1)] pass(2) pass(3) by simp
  qed
  qed
  have again: "snd (syncWikiToGeminiRag env ws) = Some res \<longrightarrow>
      (\<exists>storeName w4 w5 ir.
         image_hash_cache w4 = None \<and> wiki_images w4 = wiki_images ws \<and>
         image_bytes w4 = image_bytes ws \<and>
         processImagesToRag env storeName w4 = (w5, Inr ir) \<and>
         fst (syncWikiToGeminiRag env ws) = w5\<lparr>syncRunning := False\<rparr> \<and>
         imageFilesUploaded res = uploadedImages ir \<and>
         (\<forall>b. HashMatch b \<notin> set (ir_log ir)) \<and>
         (\<forall>present. wiki_images ws = Some present \<longrightarrow>
            (\<forall>b \<in> set present. is_image b \<longrightarrow> Analysing b \<in> set (ir_log ir))))"
  proof (rule impI)
  assume r: "snd (syncWikiToGeminiRag env ws) = Some res"
  have idle: "\<not> syncRunning ws"
    using r by (auto simp: syncWikiToGeminiRag_def)
  have docs: "\<not> no_documents ws"
  proof
    assume n: "no_documents ws"
    let ?wa = "initializeGemini (ws\<lparr>syncRunning := True\<rparr>)"
    have "no_documents ?wa" using n by (simp add: no_documents_def initializeGemini_def)
    then obtain e where "syncTry env ?wa = (?wa, Inl e)"
      using syncTry_no_documents by blast
    then have "snd (syncWikiToGeminiRag env ws) = None"
      using idle by (simp add: syncWikiToGeminiRag_def Let_def)
    then show False using r by simp
  qed
  from syncWikiToGeminiRag_pass [OF idle docs, of env] r
  obtain storeName w4 w5 ir n where
    c: "image_hash_cache w4 = None" and l: "wiki_images w4 = wiki_images ws"
    and b: "image_bytes w4 = image_bytes ws"
    and p: "processImagesToRag env storeName w4 = (w5, Inr ir)"
    and f: "fst (syncWikiToGeminiRag env ws) = w5\<lparr>syncRunning := False\<rparr>"
    and s: "snd (syncWikiToGeminiRag env ws) =
              Some \<lparr>textFilesUploaded = n, imageFilesUploaded = uploadedImages ir,
                    sr_store = storeName\<rparr>"
    by auto
  have "res = \<lparr>textFilesUploaded = n, imageFilesUploaded = uploadedImages ir,
                sr_store = storeName\<rparr>"
    using r s by simp
  then have u: "imageFilesUploaded res = uploadedImages ir" by simp
  from processImagesToRag_fresh [OF p c]
  have "(\<forall>b. HashMatch b \<notin> set (ir_log ir)) \<and>
        (\<forall>present. wiki_images ws = Some present \<longrightarrow>
            (\<forall>b \<in> set present. is_image b \<longrightarrow> Analysing b \<in> set (ir_log ir)))"
    using l by simp
  then show "\<exists>storeName w4 w5 ir.
         image_hash_cache w4 = None \<and> wiki_images w4 = wiki_images ws \<and>
         image_bytes w4 = image_bytes ws \<and>
         processImagesToRag env storeName w4 = (w5, Inr ir) \<and>
         fst (syncWikiToGeminiRag env ws) = w5\<lparr>syncRunning := False\<rparr> \<and>
         imageFilesUploaded res = uploadedImages ir \<and>
         (\<forall>b. HashMatch b \<notin> set (ir_log ir)) \<and>
         (\<forall>present. wiki_images ws = Some present \<longrightarrow>
            (\<forall>b \<in> set present. is_image b \<longrightarrow> Analysing b \<in> set (ir_log ir)))"
    using c l b p f u by blast
qed
  show ?thesis by (rule conjI [OF passes conjI [OF cleared again]])
qed

lemma mini_first_run:
  "syncWikiToGeminiRag mini_env mini_world =
     (mini_synced, Some \<lparr>textFilesUploaded = 1, imageFilesUploaded = 1, sr_store = ''s''\<rparr>)"
  by (simp add: sync_defs mini_env_def mini_world_def mini_synced_def mini_names)

theorem hash_cache_across_runs_witness:
  "processImagesToRag mini_env ''s'' mini_fresh =
     (mini_pass1, Inr \<lparr>uploadedImages = 1, ir_store = ''s'',
                       ir_log = [Analysing ''a.png'', Uploaded ''a.png'']\<rparr>) \<and>
   processImagesToRag mini_env ''s'' mini_pass1 =
     (mini_pass1, Inr \<lparr>uploadedImages = 0, ir_store = ''s'', ir_log = [HashMatch ''a.png'']\<rparr>) \<and>
   HashMatch ''a.png'' \<in> set [HashMatch ''a.png''] \<and>
   Uploaded ''a.png'' \<notin> set [HashMatch ''a.png''] \<and>
   map_of (loadHashCache mini_pass1) ''a.png'' = Some ''#x'' \<and>
   \<not> syncRunning mini_world \<and> \<not> no_documents mini_world \<and>
   map_of (loadHashCache (fst (syncWikiToGeminiRag mini_env mini_world))) ''a.png'' = Some ''#x'' \<and>
   ''#x'' = env_md5 mini_env (image_bytes mini_world ''a.png'') \<and>
   snd (syncWikiToGeminiRag mini_env mini_world) =
     Some \<lparr>textFilesUploaded = 1, imageFilesUploaded = 1, sr_store = ''s''\<rparr> \<and>
   (\<exists>storeName w4 w5 ir.
      image_hash_cache w4 = None \<and>
      processImagesToRag mini_env storeName w4 = (w5, Inr ir) \<and>
      uploadedImages ir = 1 \<and> Analysing ''a.png'' \<in> set (ir_log ir) \<and>
      HashMatch ''a.png'' \<notin> set (ir_log ir))"
proof -
  let ?r1 = "\<lparr>uploadedImages = 1, ir_store = ''s'',
              ir_log = [Analysing ''a.png'', Uploaded ''a.png'']\<rparr>"
  let ?r2 = "\<lparr>uploadedImages = 0, ir_store = ''s'', ir_log = [HashMatch ''a.png'']\<rparr>"
  let ?res = "\<lparr>textFilesUploaded = 1, imageFilesUploaded = 1, sr_store = ''s''\<rparr>"
  have up: "Uploaded ''a.png'' \<in> set (ir_log ?r1)" by simp
  have listed: "wiki_images mini_pass1 = Some [''a.png'']" "''a.png'' \<in> set [''a.png'']"
    by (simp_all add: mini_pass1_def mini_world_def)
  have bytes: "image_bytes mini_pass1 ''a.png'' = image_bytes mini_fresh ''a.png''"
    by (simp add: mini_pass1_def mini_fresh_def mini_world_def)
  have d: "env_md5 mini_env (image_bytes mini_fresh ''a.png'') = ''#x''"
    "env_md5 mini_env (image_bytes mini_world ''a.png'') = ''#x''"
    by (simp_all add: mini_env_def mini_fresh_def mini_world_def)
  have idle: "\<not> syncRunning mini_world" by (simp add: mini_world_def)
  have docs: "\<not> no_documents mini_world"
    by (simp add: no_documents_def mini_world_def mini_names)
  have res: "snd (syncWikiToGeminiRag mini_env mini_world) = Some ?res"
    by (simp add: mini_first_run)
  have cache: "map_of (loadHashCache (fst (syncWikiToGeminiRag mini_env mini_world))) ''a.png'' =
               Some ''#x''"
    by (simp add: mini_first_run loadHashCache_def mini_synced_def)
  have wl: "wiki_images mini_world = Some [''a.png'']" by (simp add: mini_world_def)
  note t = hash_cache_across_runs
             [of mini_env "''s''" mini_fresh mini_pass1 ?r1 "''a.png''" mini_pass1 mini_env
                 "[''a.png'']" "''s''" mini_pass1 ?r2 mini_world mini_env ?res]
  have 1: "HashMatch ''a.png'' \<in> set (ir_log ?r2) \<and> Uploaded ''a.png'' \<notin> set (ir_log ?r2) \<and>
           map_of (loadHashCache mini_pass1) ''a.png'' = Some ''#x''"
    using t [THEN conjunct1] mini_pass_one mini_pass_two up bytes listed mini_names(2) d
    by simp
  have 2: "''#x'' = env_md5 mini_env (image_bytes mini_world ''a.png'')"
    using t [THEN conjunct2, THEN conjunct1] idle docs cache by blast
  from t [THEN conjunct2, THEN conjunct2] res
  obtain storeName w4 w5 ir where
    "image_hash_cache w4 = None" "processImagesToRag mini_env storeName w4 = (w5, Inr ir)"
    "imageFilesUploaded ?res = uploadedImages ir"
    "\<forall>b. HashMatch b \<notin> set (ir_log ir)"
    "\<forall>present. wiki_images mini_world = Some present \<longrightarrow>
        (\<forall>b \<in> set present. is_image b \<longrightarrow> Analysing b \<in> set (ir_log ir))"
    by blast
  moreover from this have "uploadedImages ir = 1" "Analysing ''a.png'' \<in> set (ir_log ir)"
    using wl mini_names(2) by simp_all
  ultimately have 3: "\<exists>storeName w4 w5 ir.
      image_hash_cache w4 = None \<and>
      processImagesToRag mini_env storeName w4 = (w5, Inr ir) \<and>
      uploadedImages ir = 1 \<and> Analysing ''a.png'' \<in> set (ir_log ir) \<and>
      HashMatch ''a.png'' \<notin> set (ir_log ir)"
    by blast
  show ?thesis
    using mini_pass_one mini_pass_two 1 2 3 idle docs cache res by simp
qed

text \<open>
  C2, as stated, fails for sync runs: every run that passes validation clears the hash
  cache before it builds the new store. In the small installation the first run uploads
  the image and records its digest; the second run starts from the state the first one
  left, with the same bytes, and uploads the image again.
\<close>

theorem syncWikiToGeminiRag_reuploads_counterexample:
  "syncWikiToGeminiRag mini_env mini_world =
     (mini_synced, Some \<lparr>textFilesUploaded = 1, imageFilesUploaded = 1, sr_store = ''s''\<rparr>) \<and>
   image_hash_cache mini_synced = Some [(''a.png'', ''#x'')] \<and>
   image_bytes mini_synced ''a.png'' = image_bytes mini_world ''a.png'' \<and>
   syncWikiToGeminiRag mini_env mini_synced =
     (mini_synced, Some \<lparr>textFilesUploaded = 1, imageFilesUploaded = 1, sr_store = ''s''\<rparr>)"
  by (simp add: sync_defs mini_env_def mini_world_def mini_synced_def mini_names)

section \<open>Limits outside the intended range\<close>

text \<open>
  With \<open>maxSize = 0\<close> the loop of \<open>splitIntoSlackChunks\<close> cuts off an empty slice and
  trims, forever, on every text that is not blank: it returns nothing.
\<close>

lemma trim_Nil: "trim [] = []"
  by (simp add: trim_def)

lemma splitLoop_zero_diverges:
  assumes "splitLoop maxSize remaining parts = Some chunks"
  shows "\<not> (maxSize = 0 \<and> trim remaining \<noteq> [])"
proof (rule splitLoop.raw_induct
         [where P = "\<lambda>m r ps y. \<not> (m = 0 \<and> trim r \<noteq> [])", OF _ assms])
  fix f :: "int \<Rightarrow> string \<Rightarrow> string list \<Rightarrow> string list option"
  fix m r ps y
  assume IH: "\<And>m' r' ps' y'. f m' r' ps' = Some y' \<Longrightarrow> \<not> (m' = 0 \<and> trim r' \<noteq> [])"
  assume body: "(if m < int (length r)
      then let slice = slice0 r m;
               lastPeriod = lastIndexOf slice CHR ''.'';
               slice1 =
                 if lastPeriod \<noteq> - 1 \<and> 2000 < lastPeriod
                 then slice0 slice (lastPeriod + 1) else slice
           in f m (trim (drop (length slice1) r)) (ps @ [slice1])
      else Some (if 0 < length r then ps @ [r] else ps)) = Some y"
  show "\<not> (m = 0 \<and> trim r \<noteq> [])"
  proof
    assume a: "m = 0 \<and> trim r \<noteq> []"
    then have "r \<noteq> []" using trim_Nil by auto
    with body a have "f 0 (trim r) (ps @ [[]]) = Some y"
      by (simp add: slice0_def lastIndexOf_def Let_def)
    from IH [OF this] a show False by (simp add: trim_idem)
  qed
qed

lemma splitIntoSlackChunks_zero:
  "trim text \<noteq> [] \<Longrightarrow> splitIntoSlackChunks text 0 = None"
  using splitLoop_zero_diverges [of 0 "text" "[]"]
  by (cases "splitIntoSlackChunks text 0") (auto simp: splitIntoSlackChunks_def)

text \<open>
  With a negative \<open>maxLen\<close>, \<open>slice(0, maxLen)\<close> in \<open>chunkSynonyms\<close> drops characters from
  the end of the term instead of keeping the first ones.
\<close>

lemma chunkSynonyms_negative_limit: "chunkSynonyms [''abc''] (- 1) = [''ab'']"
  by (simp add: chunkSynonyms_def slice0_def trim_def is_ws_def Let_def)

end
